theory Spec2Isabelle
  imports Complex_Main "HOL-Library.Sublist" "HOL-Library.AList" "HOL-Library.Multiset"
begin

section \<open>JavaScript values\<close>

text \<open>
  The rule engine compares answers (\<^verbatim>\<open>FieldValue\<close>) with rule literals
  (\<^verbatim>\<open>unknown\<close>). Both are JavaScript values. A number is a double: the finite ones
  are embedded in the reals (on which \<^verbatim>\<open><\<close> and \<^verbatim>\<open>===\<close> agree with the doubles,
  \<^verbatim>\<open>+0\<close> and \<^verbatim>\<open>-0\<close> being one value), next to the two infinities and NaN.
  Arrays, files and other objects carry the identity of the object (a \<open>nat\<close>), since
  \<^verbatim>\<open>===\<close> and \<^verbatim>\<open>Array.prototype.includes\<close> compare objects by identity. Strings are
  sequences of characters.
\<close>

datatype jsnum = Fin real | PosInf | NegInf | NaN

record File =
  file_name :: string
  file_size :: nat
  file_type :: string

datatype jsval =
    Undefined
  | Null
  | Boolean bool
  | Number jsnum
  | String string
  | Array nat "jsval list"
  | FileObj nat File
  | Object nat

text \<open>\<^verbatim>\<open>a < b\<close> on numbers: false as soon as one side is NaN.\<close>

fun num_lt :: "jsnum \<Rightarrow> jsnum \<Rightarrow> bool" where
  "num_lt NaN _ = False"
| "num_lt _ NaN = False"
| "num_lt (Fin a) (Fin b) = (a < b)"
| "num_lt (Fin _) PosInf = True"
| "num_lt (Fin _) NegInf = False"
| "num_lt PosInf _ = False"
| "num_lt NegInf NegInf = False"
| "num_lt NegInf _ = True"

definition num_gt :: "jsnum \<Rightarrow> jsnum \<Rightarrow> bool" where
  "num_gt a b = num_lt b a"

text \<open>\<^verbatim>\<open>a <= b\<close> is \<^verbatim>\<open>!(b < a)\<close> unless one side is NaN, where it is false.\<close>

definition num_le :: "jsnum \<Rightarrow> jsnum \<Rightarrow> bool" where
  "num_le a b = (a \<noteq> NaN \<and> b \<noteq> NaN \<and> \<not> num_lt b a)"

definition num_ge :: "jsnum \<Rightarrow> jsnum \<Rightarrow> bool" where
  "num_ge a b = num_le b a"

text \<open>\<^verbatim>\<open>===\<close>: NaN differs from itself, objects are compared by identity.\<close>

fun strict_equals :: "jsval \<Rightarrow> jsval \<Rightarrow> bool" where
  "strict_equals Undefined Undefined = True"
| "strict_equals Null Null = True"
| "strict_equals (Boolean a) (Boolean b) = (a = b)"
| "strict_equals (Number a) (Number b) = (a \<noteq> NaN \<and> b \<noteq> NaN \<and> a = b)"
| "strict_equals (String a) (String b) = (a = b)"
| "strict_equals (Array r _) (Array r' _) = (r = r')"
| "strict_equals (FileObj r _) (FileObj r' _) = (r = r')"
| "strict_equals (Object r) (Object r') = (r = r')"
| "strict_equals _ _ = False"

text \<open>SameValueZero, the comparison of \<^verbatim>\<open>Array.prototype.includes\<close>: as \<^verbatim>\<open>===\<close>,
  except that NaN equals NaN.\<close>

fun sameValueZero :: "jsval \<Rightarrow> jsval \<Rightarrow> bool" where
  "sameValueZero (Number a) (Number b) = (a = b)"
| "sameValueZero a b = strict_equals a b"

definition array_includes :: "jsval list \<Rightarrow> jsval \<Rightarrow> bool" where
  "array_includes xs v = list_ex (\<lambda>x. sameValueZero x v) xs"

text \<open>\<^verbatim>\<open>String.prototype.includes\<close>: the search string occurs at some position.\<close>

fun string_includes :: "string \<Rightarrow> string \<Rightarrow> bool" where
  "string_includes [] t = (t = [])"
| "string_includes (c # cs) t = (prefix t (c # cs) \<or> string_includes cs t)"

text \<open>\<^verbatim>\<open>String.prototype.trim\<close> strips white space and line terminators at both ends;
  of the characters below U+0100 these are TAB, LF, VT, FF, CR, SP and NBSP.\<close>

definition is_space :: "char \<Rightarrow> bool" where
  "is_space c = (of_char c \<in> {9, 10, 11, 12, 13, 32, 160 :: nat})"

definition trim :: "string \<Rightarrow> string" where
  "trim s = rev (dropWhile is_space (rev (dropWhile is_space s)))"

section \<open>Types of the schema (src/types/index.ts)\<close>

datatype FieldType =
    Text | Email | Password | NumberT | Textarea | Select | Radio | Checkbox
  | Date | FileT | Switch | Rating | Range | Hidden | Section | Conditional

text \<open>The ten operators of \<^verbatim>\<open>ConditionOperator\<close>. \<^verbatim>\<open>evaluateCondition\<close> takes its
  operator as a \<^verbatim>\<open>string\<close> and has a \<^verbatim>\<open>default\<close> branch: \<open>OtherOperator\<close> is any
  other string.\<close>

datatype ConditionOperator =
    Equals | NotEquals | Contains | NotContains
  | GreaterThan | LessThan | GreaterThanOrEqual | LessThanOrEqual
  | IsEmpty | IsNotEmpty | OtherOperator string

datatype LogicOperator = AND | OR

datatype ValidationType =
    Required | MinLength | MaxLength | Min | Max | Pattern | EmailRule | Url | Custom

text \<open>Record fields carry a prefix where the source's name is taken in Isabelle
  (\<^verbatim>\<open>value\<close>, \<^verbatim>\<open>show\<close>, \<^verbatim>\<open>type\<close>, \<^verbatim>\<open>id\<close>, \<^verbatim>\<open>text\<close>, \<^verbatim>\<open>fields\<close>) and, for uniformity, in the
  same record. An optional property is an \<open>option\<close>.\<close>

record ValidationRule =
  vr_type :: ValidationType
  vr_value :: jsval
  vr_message :: string

record ConditionalRule =
  rule_field :: string
  rule_operator :: ConditionOperator
  rule_value :: jsval

record FieldConditions =
  cond_show :: bool
  cond_rules :: "ConditionalRule list"
  cond_logic :: LogicOperator

text \<open>Of the union \<^verbatim>\<open>FieldConfig\<close>, the properties that the engine reads. A property
  that is absent, or not of the type that the engine tests for, is \<open>None\<close>.\<close>

record FieldConfig =
  cfg_required :: "bool option"
  cfg_validation :: "ValidationRule list option"
  cfg_min :: "jsnum option"
  cfg_max :: "jsnum option"
  cfg_maxSize :: "jsnum option"
  cfg_accept :: "string option"
  cfg_minSelections :: "jsnum option"
  cfg_maxSelections :: "jsnum option"

record FieldSchema =
  fs_id :: string
  fs_type :: FieldType
  fs_label :: string
  fs_config :: FieldConfig
  fs_conditions :: "FieldConditions option"
  fs_order :: int

record FormMetadata =
  title :: string
  description :: "string option"
  createdAt :: string
  updatedAt :: string

record SubmitButton =
  sb_text :: string
  sb_enabled :: bool

record FormSettings =
  submitButton :: SubmitButton
  successMessage :: string
  redirectUrl :: "string option"

text \<open>The element type of \<open>form_fields\<close> is a parameter: \<^verbatim>\<open>reorderFields\<close> can return
  entries that are no \<^verbatim>\<open>FieldSchema\<close> (see below).\<close>

record 'f FormSchema =
  version :: string
  form_id :: string
  metadata :: FormMetadata
  form_fields :: "'f list"
  settings :: FormSettings

record ValidationResult =
  valid :: bool
  error :: "string option"

record FormValidationResult =
  form_valid :: bool
  form_errors :: "(string \<times> string) list"

text \<open>\<^verbatim>\<open>FormData\<close>: a key that is absent reads as \<^verbatim>\<open>undefined\<close>.\<close>

type_synonym FormData = "string \<Rightarrow> jsval option"

definition lookup :: "FormData \<Rightarrow> string \<Rightarrow> jsval" where
  "lookup formData k = (case formData k of None \<Rightarrow> Undefined | Some v \<Rightarrow> v)"

section \<open>Conditional visibility (src/validation/index.ts)\<close>

fun isEmpty :: "jsval \<Rightarrow> bool" where
  "isEmpty Null = True"
| "isEmpty Undefined = True"
| "isEmpty (String s) = (trim s = [])"
| "isEmpty (Array _ xs) = (xs = [])"
| "isEmpty _ = False"

fun evaluateCondition :: "ConditionOperator \<Rightarrow> jsval \<Rightarrow> jsval \<Rightarrow> bool" where
  "evaluateCondition Equals fieldValue compareValue = strict_equals fieldValue compareValue"
| "evaluateCondition NotEquals fieldValue compareValue = (\<not> strict_equals fieldValue compareValue)"
| "evaluateCondition Contains fieldValue compareValue =
     (case (fieldValue, compareValue) of
        (String s, String t) \<Rightarrow> string_includes s t
      | (Array _ xs, _) \<Rightarrow> array_includes xs compareValue
      | _ \<Rightarrow> False)"
| "evaluateCondition NotContains fieldValue compareValue =
     (case (fieldValue, compareValue) of
        (String s, String t) \<Rightarrow> \<not> string_includes s t
      | (Array _ xs, _) \<Rightarrow> \<not> array_includes xs compareValue
      | _ \<Rightarrow> True)"
| "evaluateCondition GreaterThan fieldValue compareValue =
     (case (fieldValue, compareValue) of
        (Number a, Number b) \<Rightarrow> num_gt a b | _ \<Rightarrow> False)"
| "evaluateCondition LessThan fieldValue compareValue =
     (case (fieldValue, compareValue) of
        (Number a, Number b) \<Rightarrow> num_lt a b | _ \<Rightarrow> False)"
| "evaluateCondition GreaterThanOrEqual fieldValue compareValue =
     (case (fieldValue, compareValue) of
        (Number a, Number b) \<Rightarrow> num_ge a b | _ \<Rightarrow> False)"
| "evaluateCondition LessThanOrEqual fieldValue compareValue =
     (case (fieldValue, compareValue) of
        (Number a, Number b) \<Rightarrow> num_le a b | _ \<Rightarrow> False)"
| "evaluateCondition IsEmpty fieldValue compareValue = isEmpty fieldValue"
| "evaluateCondition IsNotEmpty fieldValue compareValue = (\<not> isEmpty fieldValue)"
| "evaluateCondition (OtherOperator _) fieldValue compareValue = False"

definition evaluateConditions :: "FieldSchema \<Rightarrow> FormData \<Rightarrow> FieldSchema list \<Rightarrow> bool" where
  "evaluateConditions field formData allFields =
     (case fs_conditions field of
        None \<Rightarrow> True
      | Some c \<Rightarrow>
          if cond_rules c = [] then cond_show c
          else
            let results = map (\<lambda>rule.
                  evaluateCondition (rule_operator rule) (lookup formData (rule_field rule))
                    (rule_value rule)) (cond_rules c)
            in if cond_logic c = AND then list_all (\<lambda>r. r) results else list_ex (\<lambda>r. r) results)"

section \<open>Validation (src/validation/index.ts)\<close>

text \<open>What validation uses of the JavaScript platform: \<^verbatim>\<open>new RegExp(source).test(s)\<close>
  (\<open>None\<close> when the source does not compile and the constructor throws), the test of the
  literal \<^verbatim>\<open>/^[^\s@]+@[^\s@]+\.[^\s@]+$/\<close>, whether \<^verbatim>\<open>new URL(s)\<close> returns, the string
  that a template literal prints for a number, and
  \<^verbatim>\<open>parseFloat((n / (1024 * 1024)).toFixed(1))\<close>.\<close>

record Platform =
  regexp_test :: "string \<Rightarrow> string \<Rightarrow> bool option"
  emailRegex_test :: "string \<Rightarrow> bool"
  url_parses :: "string \<Rightarrow> bool"
  number_toString :: "jsnum \<Rightarrow> string"
  megabytes :: "jsnum \<Rightarrow> jsnum"

subsection \<open>\<^verbatim>\<open>ERROR_MESSAGES\<close> (src/constants)\<close>

definition REQUIRED :: string where
  "REQUIRED = ''This field is required''"

definition INVALID_EMAIL :: string where
  "INVALID_EMAIL = ''Please enter a valid email address''"

definition INVALID_URL :: string where
  "INVALID_URL = ''Please enter a valid URL''"

definition MIN_LENGTH :: "Platform \<Rightarrow> jsnum \<Rightarrow> string" where
  "MIN_LENGTH P n = ''Minimum length is '' @ number_toString P n @ '' characters''"

definition MAX_LENGTH :: "Platform \<Rightarrow> jsnum \<Rightarrow> string" where
  "MAX_LENGTH P n = ''Maximum length is '' @ number_toString P n @ '' characters''"

definition MIN_VALUE :: "Platform \<Rightarrow> jsnum \<Rightarrow> string" where
  "MIN_VALUE P n = ''Minimum value is '' @ number_toString P n"

definition MAX_VALUE :: "Platform \<Rightarrow> jsnum \<Rightarrow> string" where
  "MAX_VALUE P n = ''Maximum value is '' @ number_toString P n"

definition PATTERN_MISMATCH :: string where
  "PATTERN_MISMATCH = ''Invalid format''"

definition FILE_TOO_LARGE :: "Platform \<Rightarrow> jsnum \<Rightarrow> string" where
  "FILE_TOO_LARGE P n = ''File size must be less than '' @ number_toString P n @ ''MB''"

definition INVALID_FILE_TYPE :: string where
  "INVALID_FILE_TYPE = ''Invalid file type''"

definition MIN_SELECTIONS :: "Platform \<Rightarrow> jsnum \<Rightarrow> string" where
  "MIN_SELECTIONS P n = ''Please select at least '' @ number_toString P n @ '' option(s)''"

definition MAX_SELECTIONS :: "Platform \<Rightarrow> jsnum \<Rightarrow> string" where
  "MAX_SELECTIONS P n = ''Please select at most '' @ number_toString P n @ '' option(s)''"

subsection \<open>One rule\<close>

definition ok :: ValidationResult where
  "ok = \<lparr>valid = True, error = None\<rparr>"

definition invalid :: "string \<Rightarrow> ValidationResult" where
  "invalid msg = \<lparr>valid = False, error = Some msg\<rparr>"

text \<open>\<^verbatim>\<open>rule.message || fallback\<close>: the empty string is falsy.\<close>

definition message_or :: "string \<Rightarrow> string \<Rightarrow> string" where
  "message_or msg fallback = (if msg = [] then fallback else msg)"

definition string_length :: "string \<Rightarrow> jsnum" where
  "string_length s = Fin (real (length s))"

definition validateRule :: "Platform \<Rightarrow> ValidationRule \<Rightarrow> jsval \<Rightarrow> FieldSchema \<Rightarrow> ValidationResult" where
  "validateRule P rule val field =
     (case vr_type rule of
        Required \<Rightarrow>
          if isEmpty val then invalid (message_or (vr_message rule) REQUIRED) else ok
      | MinLength \<Rightarrow>
          (case (val, vr_value rule) of
             (String s, Number n) \<Rightarrow>
               if num_lt (string_length s) n
               then invalid (message_or (vr_message rule) (MIN_LENGTH P n)) else ok
           | _ \<Rightarrow> ok)
      | MaxLength \<Rightarrow>
          (case (val, vr_value rule) of
             (String s, Number n) \<Rightarrow>
               if num_gt (string_length s) n
               then invalid (message_or (vr_message rule) (MAX_LENGTH P n)) else ok
           | _ \<Rightarrow> ok)
      | Min \<Rightarrow>
          (case (val, vr_value rule) of
             (Number v, Number n) \<Rightarrow>
               if num_lt v n then invalid (message_or (vr_message rule) (MIN_VALUE P n)) else ok
           | _ \<Rightarrow> ok)
      | Max \<Rightarrow>
          (case (val, vr_value rule) of
             (Number v, Number n) \<Rightarrow>
               if num_gt v n then invalid (message_or (vr_message rule) (MAX_VALUE P n)) else ok
           | _ \<Rightarrow> ok)
      | Pattern \<Rightarrow>
          (case (val, vr_value rule) of
             (String s, String source) \<Rightarrow>
               (case regexp_test P source s of
                  None \<Rightarrow> ok
                | Some matches \<Rightarrow>
                    if \<not> matches then invalid (message_or (vr_message rule) PATTERN_MISMATCH)
                    else ok)
           | _ \<Rightarrow> ok)
      | EmailRule \<Rightarrow>
          (case val of
             String s \<Rightarrow>
               if \<not> emailRegex_test P s then invalid (message_or (vr_message rule) INVALID_EMAIL)
               else ok
           | _ \<Rightarrow> ok)
      | Url \<Rightarrow>
          (case val of
             String s \<Rightarrow>
               if url_parses P s then ok else invalid (message_or (vr_message rule) INVALID_URL)
           | _ \<Rightarrow> ok)
      | Custom \<Rightarrow> ok)"

subsection \<open>Checks by field type\<close>

text \<open>\<^verbatim>\<open>s.split(',')\<close>.\<close>

fun split_comma :: "string \<Rightarrow> string list" where
  "split_comma [] = [[]]"
| "split_comma (c # cs) =
     (if c = CHR '','' then [] # split_comma cs
      else (case split_comma cs of [] \<Rightarrow> [[c]] | x # xs \<Rightarrow> (c # x) # xs))"

definition isFileTypeAccepted :: "File \<Rightarrow> string list \<Rightarrow> bool" where
  "isFileTypeAccepted file acceptedTypes =
     list_ex (\<lambda>t.
        if suffix ''/*'' t then
          (let category = take (length t - 2) t in prefix category (file_type file))
        else file_type file = t \<or> suffix t (file_name file))
       acceptedTypes"

definition is_large_file :: "jsnum \<Rightarrow> jsval \<Rightarrow> bool" where
  "is_large_file maxSize v =
     (case v of FileObj _ file \<Rightarrow> num_gt (Fin (real (file_size file))) maxSize | _ \<Rightarrow> False)"

definition is_rejected_file :: "string list \<Rightarrow> jsval \<Rightarrow> bool" where
  "is_rejected_file acceptedTypes v =
     (case v of FileObj _ file \<Rightarrow> \<not> isFileTypeAccepted file acceptedTypes | _ \<Rightarrow> False)"

definition selections :: "jsval \<Rightarrow> jsnum" where
  "selections val = (case val of Array _ xs \<Rightarrow> Fin (real (length xs)) | _ \<Rightarrow> Fin 0)"

text \<open>Each check gives the message of its early \<^verbatim>\<open>return\<close>, or \<open>None\<close> when the code
  goes on to the next statement.\<close>

definition check_min :: "Platform \<Rightarrow> FieldConfig \<Rightarrow> jsval \<Rightarrow> string option" where
  "check_min P config val =
     (case (cfg_min config, val) of
        (Some m, Number v) \<Rightarrow> if num_lt v m then Some (MIN_VALUE P m) else None
      | _ \<Rightarrow> None)"

definition check_max :: "Platform \<Rightarrow> FieldConfig \<Rightarrow> jsval \<Rightarrow> string option" where
  "check_max P config val =
     (case (cfg_max config, val) of
        (Some m, Number v) \<Rightarrow> if num_gt v m then Some (MAX_VALUE P m) else None
      | _ \<Rightarrow> None)"

definition check_maxSize :: "Platform \<Rightarrow> FieldConfig \<Rightarrow> jsval \<Rightarrow> string option" where
  "check_maxSize P config val =
     (case cfg_maxSize config of
        None \<Rightarrow> None
      | Some maxSize \<Rightarrow>
          (case val of
             FileObj _ file \<Rightarrow>
               if is_large_file maxSize val then Some (FILE_TOO_LARGE P (megabytes P maxSize))
               else None
           | Array _ xs \<Rightarrow>
               if list_ex (is_large_file maxSize) xs
               then Some (FILE_TOO_LARGE P (megabytes P maxSize)) else None
           | _ \<Rightarrow> None))"

definition check_accept :: "FieldConfig \<Rightarrow> jsval \<Rightarrow> string option" where
  "check_accept config val =
     (case cfg_accept config of
        None \<Rightarrow> None
      | Some accept \<Rightarrow>
          (let acceptedTypes = map trim (split_comma accept)
           in case val of
                FileObj _ file \<Rightarrow>
                  if is_rejected_file acceptedTypes val then Some INVALID_FILE_TYPE else None
              | Array _ xs \<Rightarrow>
                  if list_ex (is_rejected_file acceptedTypes) xs then Some INVALID_FILE_TYPE
                  else None
              | _ \<Rightarrow> None))"

definition check_minSelections :: "Platform \<Rightarrow> FieldConfig \<Rightarrow> jsval \<Rightarrow> string option" where
  "check_minSelections P config val =
     (case cfg_minSelections config of
        None \<Rightarrow> None
      | Some m \<Rightarrow> if num_lt (selections val) m then Some (MIN_SELECTIONS P m) else None)"

definition check_maxSelections :: "Platform \<Rightarrow> FieldConfig \<Rightarrow> jsval \<Rightarrow> string option" where
  "check_maxSelections P config val =
     (case cfg_maxSelections config of
        None \<Rightarrow> None
      | Some m \<Rightarrow> if num_gt (selections val) m then Some (MAX_SELECTIONS P m) else None)"

text \<open>The first check that returns decides; after the last one the result is valid.\<close>

fun first_error :: "string option list \<Rightarrow> ValidationResult" where
  "first_error [] = ok"
| "first_error (None # rest) = first_error rest"
| "first_error (Some msg # rest) = invalid msg"

definition validateFieldType :: "Platform \<Rightarrow> FieldSchema \<Rightarrow> jsval \<Rightarrow> ValidationResult" where
  "validateFieldType P field val =
     (let config = fs_config field
      in case fs_type field of
           Email \<Rightarrow>
             (case val of
                String s \<Rightarrow> if \<not> emailRegex_test P s then invalid INVALID_EMAIL else ok
              | _ \<Rightarrow> ok)
         | NumberT \<Rightarrow> first_error [check_min P config val, check_max P config val]
         | FileT \<Rightarrow> first_error [check_maxSize P config val, check_accept config val]
         | Checkbox \<Rightarrow>
             first_error [check_minSelections P config val, check_maxSelections P config val]
         | _ \<Rightarrow> ok)"

subsection \<open>One field, and the form\<close>

text \<open>The loop over \<^verbatim>\<open>validation\<close>: the result of the first rule that fails.\<close>

fun run_rules :: "Platform \<Rightarrow> ValidationRule list \<Rightarrow> jsval \<Rightarrow> FieldSchema \<Rightarrow> ValidationResult option" where
  "run_rules P [] val field = None"
| "run_rules P (rule # rest) val field =
     (let result = validateRule P rule val field
      in if \<not> valid result then Some result else run_rules P rest val field)"

definition validateField :: "Platform \<Rightarrow> FieldSchema \<Rightarrow> jsval \<Rightarrow> FormData option \<Rightarrow> ValidationResult" where
  "validateField P field val allFormData =
     (let config = fs_config field;
          validation = cfg_validation config;
          required = (case cfg_required config of None \<Rightarrow> False | Some b \<Rightarrow> b)
      in if required \<and> isEmpty val then invalid REQUIRED
         else if isEmpty val then ok
         else
           case run_rules P (case validation of None \<Rightarrow> [] | Some rules \<Rightarrow> rules) val field of
             Some result \<Rightarrow> result
           | None \<Rightarrow>
               let fieldTypeResult = validateFieldType P field val
               in if \<not> valid fieldTypeResult then fieldTypeResult else ok)"

text \<open>\<^verbatim>\<open>errors\<close> is an object literal used as a dictionary: the list of its own keys
  and values. \<^verbatim>\<open>errors[key] = message\<close> adds the own property \<^verbatim>\<open>key\<close> or replaces its
  value (\<open>AList.update\<close>), except for the key \<^verbatim>\<open>__proto__\<close>: that assignment calls the
  setter that the object inherits from \<^verbatim>\<open>Object.prototype\<close>, which ignores a string, and
  the object gets no property. \<^verbatim>\<open>result.error\<close> is truthy when it is a string that is
  not empty.\<close>

definition assign_error :: "(string \<times> string) list \<Rightarrow> string \<Rightarrow> string \<Rightarrow> (string \<times> string) list" where
  "assign_error errors key message =
     (if key = ''__proto__'' then errors else AList.update key message errors)"

definition truthy_error :: "string option \<Rightarrow> bool" where
  "truthy_error e = (case e of None \<Rightarrow> False | Some msg \<Rightarrow> msg \<noteq> [])"

fun validate_fields :: "Platform \<Rightarrow> FieldSchema list \<Rightarrow> FieldSchema list \<Rightarrow> FormData
                          \<Rightarrow> (string \<times> string) list \<Rightarrow> (string \<times> string) list" where
  "validate_fields P allFields [] formData errors = errors"
| "validate_fields P allFields (field # rest) formData errors =
     (if fs_type field = Hidden \<or> fs_type field = Section then
        validate_fields P allFields rest formData errors
      else if fs_conditions field \<noteq> None \<and> \<not> evaluateConditions field formData allFields then
        validate_fields P allFields rest formData errors
      else
        let val = lookup formData (fs_id field);
            result = validateField P field val (Some formData)
        in if \<not> valid result \<and> truthy_error (error result) then
             validate_fields P allFields rest formData
               (assign_error errors (fs_id field) (the (error result)))
           else validate_fields P allFields rest formData errors)"

definition validateForm :: "Platform \<Rightarrow> FieldSchema list \<Rightarrow> FormData \<Rightarrow> FormValidationResult" where
  "validateForm P fieldList formData =
     (let errors = validate_fields P fieldList fieldList formData []
      in \<lparr>form_valid = (length (map fst errors) = 0), form_errors = errors\<rparr>)"

section \<open>Schema utilities (src/schema/utils.ts)\<close>

text \<open>What the functions read from outside: the clock (\<^verbatim>\<open>new Date().toISOString()\<close>),
  the identifier that \<^verbatim>\<open>uuidv4()\<close> returns, and the field registry.\<close>

record FieldDefinition =
  def_label :: string
  def_defaultConfig :: FieldConfig

record Runtime =
  clock_now :: string
  next_uuid :: string
  getFieldDefinition :: "FieldType \<Rightarrow> FieldDefinition"

definition SCHEMA_VERSION :: string where
  "SCHEMA_VERSION = ''1.0.0''"

definition createFieldSchema :: "Runtime \<Rightarrow> FieldType \<Rightarrow> int \<Rightarrow> FieldSchema" where
  "createFieldSchema rt fieldType order =
     (let definition = getFieldDefinition rt fieldType
      in \<lparr>fs_id = next_uuid rt, fs_type = fieldType, fs_label = def_label definition,
          fs_config = def_defaultConfig definition, fs_conditions = None, fs_order = order\<rparr>)"

definition updateFormTimestamp :: "Runtime \<Rightarrow> 'f FormSchema \<Rightarrow> 'f FormSchema" where
  "updateFormTimestamp rt schema =
     schema\<lparr>metadata := (metadata schema)\<lparr>updatedAt := clock_now rt\<rparr>\<rparr>"

definition migrateSchema :: "'f FormSchema \<Rightarrow> 'f FormSchema" where
  "migrateSchema schema = (let migrated = schema in migrated\<lparr>version := SCHEMA_VERSION\<rparr>)"

definition cloneField :: "Runtime \<Rightarrow> FieldSchema \<Rightarrow> int \<Rightarrow> FieldSchema" where
  "cloneField rt field newOrder =
     field\<lparr>fs_id := next_uuid rt, fs_order := newOrder, fs_label := fs_label field @ '' (Copy)''\<rparr>"

definition removeFieldWithCleanup :: "FieldSchema list \<Rightarrow> string \<Rightarrow> FieldSchema list" where
  "removeFieldWithCleanup fieldList fieldId =
     (let updatedFields = filter (\<lambda>f. fs_id f \<noteq> fieldId) fieldList
      in map (\<lambda>field.
           case fs_conditions field of
             None \<Rightarrow> field
           | Some conditions \<Rightarrow>
               let cleanedRules = filter (\<lambda>rule. rule_field rule \<noteq> fieldId) (cond_rules conditions)
               in if length cleanedRules = 0 then field\<lparr>fs_conditions := None\<rparr>
                  else field\<lparr>fs_conditions := Some (conditions\<lparr>cond_rules := cleanedRules\<rparr>)\<rparr>)
         updatedFields)"

subsection \<open>Cycle detection\<close>

text \<open>A JavaScript \<^verbatim>\<open>Set\<close> of strings is the list of its elements in insertion order.\<close>

definition set_add :: "string list \<Rightarrow> string \<Rightarrow> string list" where
  "set_add s x = (if x \<in> set s then s else s @ [x])"

definition set_delete :: "string list \<Rightarrow> string \<Rightarrow> string list" where
  "set_delete s x = removeAll x s"

definition field_deps :: "FieldSchema \<Rightarrow> string list" where
  "field_deps field =
     (case fs_conditions field of
        None \<Rightarrow> []
      | Some c \<Rightarrow> foldl set_add [] (map rule_field (cond_rules c)))"

definition build_dependencies :: "FieldSchema list \<Rightarrow> (string \<Rightarrow> string list option)" where
  "build_dependencies fieldList =
     foldl (\<lambda>dependencies field. dependencies(fs_id field \<mapsto> field_deps field)) Map.empty fieldList"

record DfsState =
  visited :: "string list"
  recursionStack :: "string list"
  cycles :: "string list"

text \<open>The inner function \<^verbatim>\<open>hasCycle\<close> and its loop over \<^verbatim>\<open>deps\<close>, on the three
  variables that it closes over. The first argument bounds the depth of the recursion:
  \<open>None\<close> is a recursion deeper than the bound.\<close>

fun hasCycle :: "nat \<Rightarrow> (string \<Rightarrow> string list option) \<Rightarrow> string \<Rightarrow> DfsState
                  \<Rightarrow> (bool \<times> DfsState) option"
and hasCycle_deps :: "nat \<Rightarrow> (string \<Rightarrow> string list option) \<Rightarrow> string list \<Rightarrow> DfsState
                  \<Rightarrow> (bool \<times> DfsState) option"
where
  "hasCycle 0 dependencies fieldId s = None"
| "hasCycle (Suc n) dependencies fieldId s =
     (if fieldId \<in> set (recursionStack s) then Some (True, s\<lparr>cycles := cycles s @ [fieldId]\<rparr>)
      else if fieldId \<in> set (visited s) then Some (False, s)
      else
        let s1 = s\<lparr>visited := set_add (visited s) fieldId,
                   recursionStack := set_add (recursionStack s) fieldId\<rparr>
        in case hasCycle_deps n dependencies
                  (case dependencies fieldId of None \<Rightarrow> [] | Some deps \<Rightarrow> deps) s1 of
             None \<Rightarrow> None
           | Some (True, s2) \<Rightarrow> Some (True, s2)
           | Some (False, s2) \<Rightarrow>
               Some (False, s2\<lparr>recursionStack := set_delete (recursionStack s2) fieldId\<rparr>))"
| "hasCycle_deps n dependencies [] s = Some (False, s)"
| "hasCycle_deps n dependencies (dep # deps) s =
     (case hasCycle n dependencies dep s of
        None \<Rightarrow> None
      | Some (True, s1) \<Rightarrow> Some (True, s1)
      | Some (False, s1) \<Rightarrow> hasCycle_deps n dependencies deps s1)"

fun detect_fields :: "nat \<Rightarrow> (string \<Rightarrow> string list option) \<Rightarrow> FieldSchema list \<Rightarrow> DfsState
                  \<Rightarrow> DfsState option" where
  "detect_fields n dependencies [] s = Some s"
| "detect_fields n dependencies (field # rest) s =
     (if fs_id field \<notin> set (visited s) then
        (case hasCycle n dependencies (fs_id field) s of
           None \<Rightarrow> None
         | Some (_, s1) \<Rightarrow> detect_fields n dependencies rest s1)
      else detect_fields n dependencies rest s)"

definition detectCircularDependencies :: "FieldSchema list \<Rightarrow> string list option" where
  "detectCircularDependencies fieldList =
     (let dependencies = build_dependencies fieldList
      in map_option cycles
           (detect_fields (Suc (length fieldList)) dependencies fieldList
              \<lparr>visited = [], recursionStack = [], cycles = []\<rparr>))"

subsection \<open>Reordering\<close>

text \<open>\<^verbatim>\<open>Array.prototype.splice(start, ...)\<close> on an array of length \<open>len\<close> starts at
  \<open>len + start\<close> (at least 0) for a negative \<open>start\<close> and at \<open>start\<close> (at most \<open>len\<close>)
  otherwise. Indices are integral numbers.\<close>

definition splice_start :: "nat \<Rightarrow> int \<Rightarrow> nat" where
  "splice_start len start =
     (if start < 0 then nat (max (int len + start) 0) else min (nat start) len)"

text \<open>\<^verbatim>\<open>xs.splice(start, 1)\<close>: the array that is left, and the elements deleted.\<close>

definition splice_delete1 :: "'a list \<Rightarrow> int \<Rightarrow> 'a list \<times> 'a list" where
  "splice_delete1 xs start =
     (let a = splice_start (length xs) start
      in (take a xs @ drop (a + 1) xs, take 1 (drop a xs)))"

text \<open>\<^verbatim>\<open>xs.splice(start, 0, x)\<close>.\<close>

definition splice_insert :: "'a list \<Rightarrow> int \<Rightarrow> 'a \<Rightarrow> 'a list" where
  "splice_insert xs start x =
     (let a = splice_start (length xs) start in take a xs @ [x] @ drop a xs)"

text \<open>\<^verbatim>\<open>.map((field, index) => ({ ...field, order: index }))\<close>.\<close>

definition with_order :: "FieldSchema list \<Rightarrow> FieldSchema list" where
  "with_order xs = map (\<lambda>(index, field). field\<lparr>fs_order := int index\<rparr>) (enumerate 0 xs)"

text \<open>\<^verbatim>\<open>reorderFields\<close> destructures the deleted elements: \<^verbatim>\<open>removed\<close> is
  \<^verbatim>\<open>undefined\<close> (\<open>None\<close>) when \<^verbatim>\<open>splice\<close> deleted nothing. It is inserted all the
  same, and \<^verbatim>\<open>{ ...undefined, order: index }\<close> is the object \<^verbatim>\<open>{ order: index }\<close>,
  which has no other property of a field: \<open>OrderOnly index\<close>.\<close>

datatype entry = Field FieldSchema | OrderOnly int

definition entries_with_order :: "FieldSchema option list \<Rightarrow> entry list" where
  "entries_with_order xs =
     map (\<lambda>(index, field).
            case field of
              Some f \<Rightarrow> Field (f\<lparr>fs_order := int index\<rparr>)
            | None \<Rightarrow> OrderOnly (int index))
       (enumerate 0 xs)"

definition reorderFields :: "FieldSchema list \<Rightarrow> int \<Rightarrow> int \<Rightarrow> entry list" where
  "reorderFields fieldList fromIndex toIndex =
     (let result = map Some fieldList;
          (result1, deleted) = splice_delete1 result fromIndex;
          removed = (case deleted of [] \<Rightarrow> None | x # _ \<Rightarrow> x);
          result2 = splice_insert result1 toIndex removed
      in entries_with_order result2)"

section \<open>The store (src/store/index.ts)\<close>

datatype BuilderMode = Builder | Preview

record 'f FormBuilderState =
  currentForm :: "'f FormSchema"
  formData :: FormData
  mode :: BuilderMode
  selectedFieldId :: "string option"

text \<open>\<^verbatim>\<open>{ ...currentForm, fields }\<close>.\<close>

definition with_fields :: "'a FormSchema \<Rightarrow> 'b list \<Rightarrow> 'b FormSchema" where
  "with_fields schema fs =
     \<lparr>version = version schema, form_id = form_id schema, metadata = metadata schema,
      form_fields = fs, settings = settings schema\<rparr>"

text \<open>\<^verbatim>\<open>Partial<FieldSchema>\<close>: a property that the update does not carry is \<open>None\<close>;
  \<^verbatim>\<open>conditions\<close> can be carried with the value \<^verbatim>\<open>undefined\<close>.\<close>

record FieldUpdate =
  up_id :: "string option"
  up_type :: "FieldType option"
  up_label :: "string option"
  up_config :: "FieldConfig option"
  up_conditions :: "FieldConditions option option"
  up_order :: "int option"

text \<open>\<^verbatim>\<open>{ ...field, ...updates }\<close>.\<close>

definition merge_updates :: "FieldSchema \<Rightarrow> FieldUpdate \<Rightarrow> FieldSchema" where
  "merge_updates field updates =
     \<lparr>fs_id = (case up_id updates of None \<Rightarrow> fs_id field | Some v \<Rightarrow> v),
      fs_type = (case up_type updates of None \<Rightarrow> fs_type field | Some v \<Rightarrow> v),
      fs_label = (case up_label updates of None \<Rightarrow> fs_label field | Some v \<Rightarrow> v),
      fs_config = (case up_config updates of None \<Rightarrow> fs_config field | Some v \<Rightarrow> v),
      fs_conditions = (case up_conditions updates of None \<Rightarrow> fs_conditions field | Some v \<Rightarrow> v),
      fs_order = (case up_order updates of None \<Rightarrow> fs_order field | Some v \<Rightarrow> v)\<rparr>"

fun findIndex :: "('a \<Rightarrow> bool) \<Rightarrow> 'a list \<Rightarrow> nat option" where
  "findIndex p [] = None"
| "findIndex p (x # xs) = (if p x then Some 0 else map_option Suc (findIndex p xs))"

definition addField :: "Runtime \<Rightarrow> FieldType \<Rightarrow> int option \<Rightarrow> FieldSchema FormBuilderState
                          \<Rightarrow> FieldSchema FormBuilderState" where
  "addField rt fieldType position state =
     (let form = currentForm state;
          insertPosition = (case position of None \<Rightarrow> int (length (form_fields form)) | Some p \<Rightarrow> p);
          newField = createFieldSchema rt fieldType insertPosition;
          updatedFields = splice_insert (form_fields form) insertPosition newField;
          reorderedFields = with_order updatedFields
      in state\<lparr>currentForm := updateFormTimestamp rt (with_fields form reorderedFields),
               selectedFieldId := Some (fs_id newField)\<rparr>)"

definition updateField :: "Runtime \<Rightarrow> string \<Rightarrow> FieldUpdate \<Rightarrow> FieldSchema FormBuilderState
                          \<Rightarrow> FieldSchema FormBuilderState" where
  "updateField rt fieldId updates state =
     (let form = currentForm state;
          updatedFields = map (\<lambda>field. if fs_id field = fieldId then merge_updates field updates
                                       else field) (form_fields form)
      in state\<lparr>currentForm := updateFormTimestamp rt (with_fields form updatedFields)\<rparr>)"

definition removeField :: "Runtime \<Rightarrow> string \<Rightarrow> FieldSchema FormBuilderState
                          \<Rightarrow> FieldSchema FormBuilderState" where
  "removeField rt fieldId state =
     (let form = currentForm state;
          updatedFields = removeFieldWithCleanup (form_fields form) fieldId
      in state\<lparr>currentForm := updateFormTimestamp rt (with_fields form updatedFields),
               selectedFieldId := (if selectedFieldId state = Some fieldId then None
                                   else selectedFieldId state)\<rparr>)"

definition duplicateField :: "Runtime \<Rightarrow> string \<Rightarrow> FieldSchema FormBuilderState
                          \<Rightarrow> FieldSchema FormBuilderState" where
  "duplicateField rt fieldId state =
     (let form = currentForm state
      in case findIndex (\<lambda>f. fs_id f = fieldId) (form_fields form) of
           None \<Rightarrow> state
         | Some fieldIndex \<Rightarrow>
             let field = form_fields form ! fieldIndex;
                 newField = cloneField rt field (int fieldIndex + 1);
                 updatedFields = splice_insert (form_fields form) (int fieldIndex + 1) newField;
                 reorderedFields = with_order updatedFields
             in state\<lparr>currentForm := updateFormTimestamp rt (with_fields form reorderedFields),
                      selectedFieldId := Some (fs_id newField)\<rparr>)"

definition reorderField :: "Runtime \<Rightarrow> int \<Rightarrow> int \<Rightarrow> FieldSchema FormBuilderState
                          \<Rightarrow> entry FormBuilderState" where
  "reorderField rt fromIndex toIndex state =
     (let form = currentForm state;
          reorderedFields = reorderFields (form_fields form) fromIndex toIndex
      in \<lparr>currentForm = updateFormTimestamp rt (with_fields form reorderedFields),
          formData = formData state, mode = mode state,
          selectedFieldId = selectedFieldId state\<rparr>)"

section \<open>Properties of a schema\<close>

text \<open>The order invariant of the specification: \<^verbatim>\<open>fields[i].order === i\<close> for every
  index, and the identifiers are pairwise different. For the entries that
  \<^verbatim>\<open>reorderFields\<close> returns, an entry without \<^verbatim>\<open>id\<close> has the identifier \<open>None\<close>.\<close>

definition order_invariant :: "FieldSchema list \<Rightarrow> bool" where
  "order_invariant fs = (map fs_order fs = map int [0..<length fs])"

definition unique_ids :: "FieldSchema list \<Rightarrow> bool" where
  "unique_ids fs = distinct (map fs_id fs)"

fun entry_order :: "entry \<Rightarrow> int" where
  "entry_order (Field f) = fs_order f"
| "entry_order (OrderOnly n) = n"

fun entry_id :: "entry \<Rightarrow> string option" where
  "entry_id (Field f) = Some (fs_id f)"
| "entry_id (OrderOnly n) = None"

definition entries_order_invariant :: "entry list \<Rightarrow> bool" where
  "entries_order_invariant es = (map entry_order es = map int [0..<length es])"

text \<open>What the sweep of \<^verbatim>\<open>removeFieldWithCleanup\<close> leaves of the conditions of a
  field.\<close>

definition cleaned_conditions :: "string \<Rightarrow> FieldSchema \<Rightarrow> FieldConditions option" where
  "cleaned_conditions fieldId f =
     (case fs_conditions f of
        None \<Rightarrow> None
      | Some c \<Rightarrow>
          if filter (\<lambda>rule. rule_field rule \<noteq> fieldId) (cond_rules c) = [] then None
          else Some (c\<lparr>cond_rules := filter (\<lambda>rule. rule_field rule \<noteq> fieldId) (cond_rules c)\<rparr>))"




section \<open>Example data\<close>

definition ex_config :: FieldConfig where
  "ex_config = \<lparr>cfg_required = Some False, cfg_validation = None, cfg_min = None,
     cfg_max = None, cfg_maxSize = None, cfg_accept = None, cfg_minSelections = None,
     cfg_maxSelections = None\<rparr>"

definition ex_required :: FieldConfig where
  "ex_required = ex_config\<lparr>cfg_required := Some True\<rparr>"

definition ex_field :: "string \<Rightarrow> int \<Rightarrow> FieldConditions option \<Rightarrow> FieldSchema" where
  "ex_field i n c = \<lparr>fs_id = i, fs_type = Text, fs_label = ''Text Input'', fs_config = ex_config,
     fs_conditions = c, fs_order = n\<rparr>"

definition ex_rule :: "string \<Rightarrow> jsval \<Rightarrow> ConditionalRule" where
  "ex_rule i v = \<lparr>rule_field = i, rule_operator = Equals, rule_value = v\<rparr>"

definition depends_on :: "string \<Rightarrow> FieldConditions option" where
  "depends_on i = Some \<lparr>cond_show = True, cond_rules = [ex_rule i (String ''US'')],
     cond_logic = AND\<rparr>"

definition ex_hidden_by_default :: "FieldConditions option" where
  "ex_hidden_by_default = Some \<lparr>cond_show = False, cond_rules = [], cond_logic = AND\<rparr>"

definition ex_schema :: "FieldSchema list \<Rightarrow> FieldSchema FormSchema" where
  "ex_schema fs = \<lparr>version = ''1.0.0'', form_id = ''form-1'',
     metadata = \<lparr>title = ''Untitled Form'', description = Some [],
       createdAt = ''2024-01-01T00:00:00.000Z'', updatedAt = ''2024-01-01T00:00:00.000Z''\<rparr>,
     form_fields = fs,
     settings = \<lparr>submitButton = \<lparr>sb_text = ''Submit'', sb_enabled = True\<rparr>,
       successMessage = ''Thank you!'', redirectUrl = None\<rparr>\<rparr>"

definition ex_state :: "FieldSchema list \<Rightarrow> FieldSchema FormBuilderState" where
  "ex_state fs = \<lparr>currentForm = ex_schema fs, formData = Map.empty, mode = Builder,
     selectedFieldId = None\<rparr>"

definition ex_update :: FieldUpdate where
  "ex_update = \<lparr>up_id = None, up_type = None, up_label = Some ''Renamed'', up_config = None,
     up_conditions = None, up_order = None\<rparr>"

definition ex_runtime :: Runtime where
  "ex_runtime = \<lparr>clock_now = ''2024-06-01T12:00:00.000Z'', next_uuid = ''new-id'',
     getFieldDefinition = (\<lambda>t. \<lparr>def_label = ''Text Input'', def_defaultConfig = ex_config\<rparr>)\<rparr>"

definition ex_platform :: Platform where
  "ex_platform = \<lparr>regexp_test = (\<lambda>source s. None), emailRegex_test = (\<lambda>s. CHR ''@'' \<in> set s),
     url_parses = (\<lambda>s. prefix ''https://'' s), number_toString = (\<lambda>n. ''0''),
     megabytes = (\<lambda>n. n)\<rparr>"


section \<open>Lemmas on the helper functions\<close>

lemma order_invariant_iff:
  "order_invariant fs \<longleftrightarrow> (\<forall>i<length fs. fs_order (fs ! i) = int i)"
proof
  assume "order_invariant fs"
  then have e: "map fs_order fs = map int [0..<length fs]" by (simp only: order_invariant_def)
  show "\<forall>i<length fs. fs_order (fs ! i) = int i"
  proof (intro allI impI)
    fix i assume i: "i < length fs"
    then have "fs_order (fs ! i) = map fs_order fs ! i" by simp
    also have "\<dots> = map int [0..<length fs] ! i" by (simp only: e)
    also have "\<dots> = int i" using i by simp
    finally show "fs_order (fs ! i) = int i" .
  qed
next
  assume "\<forall>i<length fs. fs_order (fs ! i) = int i"
  then have "map fs_order fs = map int [0..<length fs]"
    by (intro nth_equalityI) simp_all
  then show "order_invariant fs" by (simp only: order_invariant_def)
qed

lemma entries_order_invariant_iff:
  "entries_order_invariant es \<longleftrightarrow> (\<forall>i<length es. entry_order (es ! i) = int i)"
proof
  assume "entries_order_invariant es"
  then have e: "map entry_order es = map int [0..<length es]"
    by (simp only: entries_order_invariant_def)
  show "\<forall>i<length es. entry_order (es ! i) = int i"
  proof (intro allI impI)
    fix i assume i: "i < length es"
    then have "entry_order (es ! i) = map entry_order es ! i" by simp
    also have "\<dots> = map int [0..<length es] ! i" by (simp only: e)
    also have "\<dots> = int i" using i by simp
    finally show "entry_order (es ! i) = int i" .
  qed
next
  assume "\<forall>i<length es. entry_order (es ! i) = int i"
  then have "map entry_order es = map int [0..<length es]"
    by (intro nth_equalityI) simp_all
  then show "entries_order_invariant es" by (simp only: entries_order_invariant_def)
qed

lemma with_fields_same: "with_fields (schema :: 'a FormSchema) (form_fields schema) = schema"
  by (simp add: with_fields_def)

lemma map_fst_enumerate0: "map fst (enumerate 0 xs) = [0..<length xs]"
  by (simp add: enumerate_eq_zip)

lemma map_snd_enumerate0: "map snd (enumerate 0 xs) = xs"
  by (simp add: enumerate_eq_zip)

lemma length_with_order: "length (with_order xs) = length xs"
  by (simp add: with_order_def)

lemma order_invariant_with_order: "order_invariant (with_order xs)"
proof -
  have "map fs_order (with_order xs) = map (int \<circ> fst) (enumerate 0 xs)"
    by (simp add: with_order_def case_prod_unfold comp_def)
  also have "\<dots> = map int (map fst (enumerate 0 xs))" by (simp only: map_map)
  also have "\<dots> = map int [0..<length xs]" by (simp only: map_fst_enumerate0)
  finally show ?thesis by (simp add: order_invariant_def length_with_order)
qed

lemma ids_with_order: "map fs_id (with_order xs) = map fs_id xs"
proof -
  have "map fs_id (with_order xs) = map (fs_id \<circ> snd) (enumerate 0 xs)"
    by (simp add: with_order_def case_prod_unfold comp_def)
  also have "\<dots> = map fs_id (map snd (enumerate 0 xs))" by (simp only: map_map)
  finally show ?thesis by (simp only: map_snd_enumerate0)
qed

lemma length_entries_with_order: "length (entries_with_order xs) = length xs"
  by (simp add: entries_with_order_def)

lemma entries_order_invariant_entries: "entries_order_invariant (entries_with_order xs)"
proof -
  have "map entry_order (entries_with_order xs) = map (int \<circ> fst) (enumerate 0 xs)"
    by (auto simp: entries_with_order_def split: option.splits)
  also have "\<dots> = map int (map fst (enumerate 0 xs))" by (simp only: map_map)
  also have "\<dots> = map int [0..<length xs]" by (simp only: map_fst_enumerate0)
  finally show ?thesis by (simp add: entries_order_invariant_def length_entries_with_order)
qed

lemma entries_with_order_Some: "entries_with_order (map Some ys) = map Field (with_order ys)"
  by (simp add: entries_with_order_def with_order_def enumerate_eq_zip zip_map2 case_prod_unfold)

lemma nth_entries_with_order:
  "k < length xs \<Longrightarrow> entries_with_order xs ! k =
     (case xs ! k of Some f \<Rightarrow> Field (f\<lparr>fs_order := int k\<rparr>) | None \<Rightarrow> OrderOnly (int k))"
  by (simp add: entries_with_order_def nth_enumerate_eq)

subsection \<open>\<^verbatim>\<open>splice\<close>\<close>

lemma splice_start_le: "splice_start len i \<le> len"
  by (auto simp: splice_start_def)

lemma splice_start_cases:
  "splice_start (length fs) fromIndex < length fs \<longleftrightarrow> fromIndex < int (length fs) \<and> fs \<noteq> []"
proof (cases "fs = []")
  case True
  then show ?thesis by (simp add: splice_start_def)
next
  case False
  then obtain n where "length fs = Suc n" by (cases fs) auto
  then show ?thesis using False unfolding splice_start_def by (auto simp: max_def min_def)
qed

lemma splice_insert_map: "splice_insert (map f xs) i (f x) = map f (splice_insert xs i x)"
  by (simp add: splice_insert_def Let_def take_map drop_map)

lemma mset_splice_insert: "mset (splice_insert xs i x) = add_mset x (mset xs)"
proof -
  have "mset (take a xs) + mset (drop a xs) = mset xs" for a
    by (metis append_take_drop_id mset_append)
  then show ?thesis by (simp add: splice_insert_def Let_def)
qed

lemma length_splice_insert: "length (splice_insert xs i x) = Suc (length xs)"
  using splice_start_le[of "length xs" i] by (simp add: splice_insert_def Let_def)

lemma nth_splice_insert: "splice_insert xs i x ! splice_start (length xs) i = x"
  using splice_start_le[of "length xs" i] by (simp add: splice_insert_def Let_def nth_append)

lemma distinct_splice_insert:
  "distinct (map f (splice_insert xs i x)) \<longleftrightarrow> f x \<notin> f ` set xs \<and> distinct (map f xs)"
proof -
  have "mset (map f (splice_insert xs i x)) = mset (map f (x # xs))"
    by (simp add: mset_splice_insert)
  then have "distinct (map f (splice_insert xs i x)) = distinct (map f (x # xs))"
    by (rule mset_eq_imp_distinct_iff)
  then show ?thesis by simp
qed

subsection \<open>\<^verbatim>\<open>reorderFields\<close>\<close>

lemma reorderFields_nothing_removed:
  assumes "splice_start (length fs) fromIndex = length fs"
  shows "reorderFields fs fromIndex toIndex
           = entries_with_order (splice_insert (map Some fs) toIndex None)"
  using assms by (simp add: reorderFields_def splice_delete1_def Let_def)

lemma reorderFields_removed:
  assumes "splice_start (length fs) fromIndex < length fs"
  shows "reorderFields fs fromIndex toIndex =
     map Field (with_order (splice_insert
        (take (splice_start (length fs) fromIndex) fs
           @ drop (splice_start (length fs) fromIndex + 1) fs)
        toIndex (fs ! splice_start (length fs) fromIndex)))"
proof -
  let ?a = "splice_start (length fs) fromIndex"
  have d: "take 1 (drop ?a (map Some fs)) = [Some (fs ! ?a)]"
    using assms by (simp add: take_Suc_conv_app_nth drop_map[symmetric] hd_drop_conv_nth take_Suc)
  have r: "take ?a (map Some fs) @ drop (?a + 1) (map Some fs)
             = map Some (take ?a fs @ drop (?a + 1) fs)"
    by (simp add: take_map drop_map)
  show ?thesis
    unfolding reorderFields_def splice_delete1_def Let_def
    by (simp only: length_map d r prod.case list.case splice_insert_map entries_with_order_Some)
qed

lemma reorderField_fields:
  "form_fields (currentForm (reorderField rt fromIndex toIndex state))
     = reorderFields (form_fields (currentForm state)) fromIndex toIndex"
  by (simp add: reorderField_def Let_def updateFormTimestamp_def with_fields_def)

subsection \<open>\<^verbatim>\<open>removeFieldWithCleanup\<close>\<close>

lemma removeFieldWithCleanup_eq:
  "removeFieldWithCleanup fieldList fieldId =
     map (\<lambda>f. f\<lparr>fs_conditions := cleaned_conditions fieldId f\<rparr>)
       (filter (\<lambda>f. fs_id f \<noteq> fieldId) fieldList)"
  unfolding removeFieldWithCleanup_def Let_def cleaned_conditions_def
  by (rule map_cong) (auto split: option.splits)

lemma in_removeFieldWithCleanup:
  "f' \<in> set (removeFieldWithCleanup fieldList fieldId) \<longleftrightarrow>
     (\<exists>f\<in>set fieldList. fs_id f \<noteq> fieldId \<and>
        f' = f\<lparr>fs_conditions := cleaned_conditions fieldId f\<rparr>)"
  unfolding removeFieldWithCleanup_eq by auto

lemma removed_id_absent:
  assumes "f' \<in> set (removeFieldWithCleanup fieldList fieldId)"
  shows "fs_id f' \<noteq> fieldId"
proof -
  from assms obtain f where "fs_id f \<noteq> fieldId"
    and "f' = f\<lparr>fs_conditions := cleaned_conditions fieldId f\<rparr>"
    unfolding in_removeFieldWithCleanup by blast
  then show ?thesis by simp
qed

lemma remaining_rules_clean:
  assumes "f' \<in> set (removeFieldWithCleanup fieldList fieldId)" and "fs_conditions f' = Some c"
  shows "cond_rules c \<noteq> [] \<and> (\<forall>rule\<in>set (cond_rules c). rule_field rule \<noteq> fieldId)"
proof -
  from assms(1) obtain f where "f' = f\<lparr>fs_conditions := cleaned_conditions fieldId f\<rparr>"
    unfolding in_removeFieldWithCleanup by blast
  with assms(2) have "cleaned_conditions fieldId f = Some c" by simp
  then show ?thesis
    by (auto simp: cleaned_conditions_def split: option.splits if_splits)
qed

lemma removeField_fields:
  "form_fields (currentForm (removeField rt fieldId state)) =
     removeFieldWithCleanup (form_fields (currentForm state)) fieldId"
  by (simp add: removeField_def Let_def updateFormTimestamp_def with_fields_def)

subsection \<open>Strings and arrays\<close>

lemma string_includes_iff: "string_includes s t = (\<exists>pre post. s = pre @ t @ post)"
proof (induction s)
  case Nil
  then show ?case by auto
next
  case (Cons c cs)
  show ?case
  proof
    assume "string_includes (c # cs) t"
    then consider "prefix t (c # cs)" | "string_includes cs t" by auto
    then show "\<exists>pre post. c # cs = pre @ t @ post"
    proof cases
      case 1
      then obtain post where "c # cs = t @ post" by (auto simp: prefix_def)
      then have "c # cs = [] @ t @ post" by simp
      then show ?thesis by blast
    next
      case 2
      with Cons obtain pre post where "cs = pre @ t @ post" by auto
      then have "c # cs = (c # pre) @ t @ post" by simp
      then show ?thesis by blast
    qed
  next
    assume "\<exists>pre post. c # cs = pre @ t @ post"
    then obtain pre post where e: "c # cs = pre @ t @ post" by blast
    show "string_includes (c # cs) t"
    proof (cases pre)
      case Nil
      with e have "prefix t (c # cs)" by (simp add: prefix_def)
      then show ?thesis by simp
    next
      case (Cons p ps)
      with e have "cs = ps @ t @ post" by simp
      with Cons.IH have "string_includes cs t" by blast
      then show ?thesis by simp
    qed
  qed
qed

lemma array_includes_iff: "array_includes xs v = (\<exists>x\<in>set xs. sameValueZero x v)"
  by (simp add: array_includes_def list_ex_iff)

subsection \<open>Validation results\<close>




















lemma evaluateConditions_allFields:
  "evaluateConditions field answers allFields = evaluateConditions field answers allFields'"
  by (simp add: evaluateConditions_def)







text \<open>A field with the identifier \<^verbatim>\<open>__proto__\<close> that fails leaves no error: the form
  \<^verbatim>\<open>[{ id: '__proto__', type: 'text', config: { required: true } }]\<close> with the empty
  string as its answer is invalid for \<^verbatim>\<open>validateField\<close> and valid for
  \<^verbatim>\<open>validateForm\<close>.\<close>

lemma validateForm_proto_key_dropped:
  "validateField ex_platform ((ex_field ''__proto__'' 0 None)\<lparr>fs_config := ex_required\<rparr>)
      (lookup [''__proto__'' \<mapsto> String ''''] ''__proto__'')
      (Some [''__proto__'' \<mapsto> String ''''])
    = invalid ''This field is required''
 \<and> validateForm ex_platform [(ex_field ''__proto__'' 0 None)\<lparr>fs_config := ex_required\<rparr>]
      [''__proto__'' \<mapsto> String '''']
    = \<lparr>form_valid = True, form_errors = []\<rparr>"
  by (simp add: validateForm_def validateField_def evaluateConditions_def assign_error_def
      ex_field_def ex_required_def ex_config_def lookup_def REQUIRED_def invalid_def
      truthy_error_def trim_def Let_def)



subsection \<open>The dependency graph\<close>

lemma set_set_add: "set (set_add s x) = insert x (set s)"
  by (auto simp: set_add_def)

lemma set_foldl_set_add: "set (foldl set_add acc xs) = set acc \<union> set xs"
  by (induction xs arbitrary: acc) (auto simp: set_set_add)

lemma set_delete_set_add: "x \<notin> set s \<Longrightarrow> set_delete (set_add s x) x = s"
  by (simp add: set_add_def set_delete_def)

lemma foldl_dependencies_dom:
  "dom (foldl (\<lambda>dependencies field. dependencies(fs_id field \<mapsto> field_deps field)) m fs)
     = dom m \<union> fs_id ` set fs"
  by (induction fs arbitrary: m) auto

lemma dom_build_dependencies: "dom (build_dependencies fs) = fs_id ` set fs"
  by (simp add: build_dependencies_def foldl_dependencies_dom)

lemma foldl_dependencies_other:
  "k \<notin> fs_id ` set fs \<Longrightarrow>
     foldl (\<lambda>dependencies field. dependencies(fs_id field \<mapsto> field_deps field)) m fs k = m k"
  by (induction fs arbitrary: m) auto

lemma foldl_dependencies_lookup:
  "distinct (map fs_id fs) \<Longrightarrow> f \<in> set fs \<Longrightarrow>
     foldl (\<lambda>dependencies field. dependencies(fs_id field \<mapsto> field_deps field)) m fs (fs_id f)
       = Some (field_deps f)"
proof (induction fs arbitrary: m)
  case Nil
  then show ?case by simp
next
  case (Cons g rest)
  show ?case
  proof (cases "g = f")
    case True
    with Cons.prems have "fs_id f \<notin> fs_id ` set rest" by simp
    from foldl_dependencies_other[OF this, of "m(fs_id f \<mapsto> field_deps f)"]
    show ?thesis unfolding True by (simp only: foldl_Cons fun_upd_same)
  next
    case False
    with Cons show ?thesis by auto
  qed
qed

lemma build_dependencies_last:
  assumes "fs_id f \<notin> fs_id ` set post"
  shows "build_dependencies (pre @ f # post) (fs_id f) = Some (field_deps f)"
proof -
  let ?F = "\<lambda>dependencies field. dependencies(fs_id field \<mapsto> field_deps field)"
  have "build_dependencies (pre @ f # post) (fs_id f)
      = foldl ?F ((foldl ?F Map.empty pre)(fs_id f \<mapsto> field_deps f)) post (fs_id f)"
    by (simp only: build_dependencies_def foldl_append foldl_Cons)
  also have "\<dots> = ((foldl ?F Map.empty pre)(fs_id f \<mapsto> field_deps f)) (fs_id f)"
    using assms by (rule foldl_dependencies_other)
  finally show ?thesis by (simp only: fun_upd_same)
qed

lemma build_dependencies_lookup:
  "distinct (map fs_id fs) \<Longrightarrow> f \<in> set fs \<Longrightarrow>
     build_dependencies fs (fs_id f) = Some (field_deps f)"
  unfolding build_dependencies_def by (rule foldl_dependencies_lookup)

lemma visited_mono:
  "(\<forall>b s'. hasCycle n g v s = Some (b, s') \<longrightarrow> set (visited s) \<subseteq> set (visited s'))"
  "(\<forall>b s'. hasCycle_deps n g ds s = Some (b, s') \<longrightarrow> set (visited s) \<subseteq> set (visited s'))"
proof (induction n g v s and n g ds s rule: hasCycle_hasCycle_deps.induct)
  case (1 dependencies fieldId s)
  then show ?case by simp
next
  case (2 n dependencies fieldId s)
  show ?case
  proof (intro allI impI)
    fix b s' assume r: "hasCycle (Suc n) dependencies fieldId s = Some (b, s')"
    show "set (visited s) \<subseteq> set (visited s')"
    proof (cases "fieldId \<in> set (recursionStack s) \<or> fieldId \<in> set (visited s)")
      case True
      with r show ?thesis by (auto split: if_splits)
    next
      case False
      let ?s1 = "s\<lparr>visited := set_add (visited s) fieldId,
                   recursionStack := set_add (recursionStack s) fieldId\<rparr>"
      let ?ds = "case dependencies fieldId of None \<Rightarrow> [] | Some deps \<Rightarrow> deps"
      from False r obtain b2 s2 where l: "hasCycle_deps n dependencies ?ds ?s1 = Some (b2, s2)"
        and v: "visited s' = visited s2"
        by (auto simp: Let_def split: option.splits bool.splits)
      from False have n1: "fieldId \<notin> set (recursionStack s)"
        and n2: "fieldId \<notin> set (visited s)" by auto
      from "2.IH"[OF n1 n2 refl] l have "set (visited ?s1) \<subseteq> set (visited s2)" by blast
      with v show ?thesis by (auto simp: set_set_add)
    qed
  qed
next
  case (3 n dependencies s)
  then show ?case by simp
next
  case (4 n dependencies dep deps s)
  show ?case
  proof (intro allI impI)
    fix b s' assume r: "hasCycle_deps n dependencies (dep # deps) s = Some (b, s')"
    then obtain b1 s1 where h: "hasCycle n dependencies dep s = Some (b1, s1)"
      by (auto split: option.splits)
    with "4.IH"(1) have m1: "set (visited s) \<subseteq> set (visited s1)" by simp
    show "set (visited s) \<subseteq> set (visited s')"
    proof (cases b1)
      case True
      with r h have "s' = s1" by simp
      with m1 show ?thesis by simp
    next
      case False
      with r h have "hasCycle_deps n dependencies deps s1 = Some (b, s')" by simp
      with "4.IH"(2)[of "(b1, s1)" b1 s1] h False have "set (visited s1) \<subseteq> set (visited s')" by simp
      with m1 show ?thesis by blast
    qed
  qed
qed


lemma visited_mono_hasCycle:
  "hasCycle n g v s = Some (b, s') \<Longrightarrow> set (visited s) \<subseteq> set (visited s')"
  using visited_mono(1) by blast

lemma visited_mono_deps:
  "hasCycle_deps n g ds s = Some (b, s') \<Longrightarrow> set (visited s) \<subseteq> set (visited s')"
  using visited_mono(2) by blast

lemma card_unvisited_mono:
  assumes "finite D" and "set (visited s) \<subseteq> set (visited s')"
  shows "card (D - set (visited s')) \<le> card (D - set (visited s))"
  using assms by (intro card_mono) auto

lemma enough_fuel:
  "finite (dom g) \<and> card (dom g - set (visited s)) < n \<longrightarrow> hasCycle n g v s \<noteq> None"
  "finite (dom g) \<and> (ds = [] \<or> card (dom g - set (visited s)) < n)
     \<longrightarrow> hasCycle_deps n g ds s \<noteq> None"
proof (induction n g v s and n g ds s rule: hasCycle_hasCycle_deps.induct)
  case (1 dependencies fieldId s)
  then show ?case by simp
next
  case (2 n dependencies fieldId s)
  show ?case
  proof (intro impI)
    assume a: "finite (dom dependencies) \<and> card (dom dependencies - set (visited s)) < Suc n"
    show "hasCycle (Suc n) dependencies fieldId s \<noteq> None"
    proof (cases "fieldId \<in> set (recursionStack s) \<or> fieldId \<in> set (visited s)")
      case True
      then show ?thesis by auto
    next
      case False
      let ?s1 = "s\<lparr>visited := set_add (visited s) fieldId,
                   recursionStack := set_add (recursionStack s) fieldId\<rparr>"
      let ?ds = "case dependencies fieldId of None \<Rightarrow> [] | Some deps \<Rightarrow> deps"
      have "?ds = [] \<or> card (dom dependencies - set (visited ?s1)) < n"
      proof (cases "dependencies fieldId")
        case None
        then show ?thesis by simp
      next
        case (Some deps)
        then have "fieldId \<in> dom dependencies - set (visited s)" using False by auto
        moreover have "dom dependencies - set (visited ?s1)
            = (dom dependencies - set (visited s)) - {fieldId}"
          by (auto simp: set_set_add)
        ultimately have "card (dom dependencies - set (visited ?s1))
            = card (dom dependencies - set (visited s)) - 1"
          using a by (simp add: card_Diff_singleton)
        moreover have "0 < card (dom dependencies - set (visited s))"
          using \<open>fieldId \<in> dom dependencies - set (visited s)\<close> a
          by (metis card_gt_0_iff empty_iff finite_Diff)
        ultimately show ?thesis using a by linarith
      qed
      moreover from False have n1: "fieldId \<notin> set (recursionStack s)"
        and n2: "fieldId \<notin> set (visited s)" by auto
      note "2.IH"[OF n1 n2 refl]
      ultimately have "hasCycle_deps n dependencies ?ds ?s1 \<noteq> None" using a by blast
      with False show ?thesis by (auto simp: Let_def split: option.splits bool.splits)
    qed
  qed
next
  case (3 n dependencies s)
  then show ?case by simp
next
  case (4 n dependencies dep deps s)
  show ?case
  proof (intro impI)
    assume a: "finite (dom dependencies)
      \<and> (dep # deps = [] \<or> card (dom dependencies - set (visited s)) < n)"
    then have c: "card (dom dependencies - set (visited s)) < n" by simp
    with a "4.IH"(1) obtain b1 s1 where h: "hasCycle n dependencies dep s = Some (b1, s1)"
      by auto
    show "hasCycle_deps n dependencies (dep # deps) s \<noteq> None"
    proof (cases b1)
      case True
      with h show ?thesis by simp
    next
      case False
      from visited_mono_hasCycle[OF h] a
      have "card (dom dependencies - set (visited s1)) \<le> card (dom dependencies - set (visited s))"
        by (intro card_unvisited_mono) auto
      with c have "card (dom dependencies - set (visited s1)) < n" by simp
      with "4.IH"(2)[of "(b1, s1)" b1 s1] h False a
      have "hasCycle_deps n dependencies deps s1 \<noteq> None" by simp
      with h False show ?thesis by simp
    qed
  qed
qed

lemma detect_fields_total:
  assumes "finite (dom g)" and "card (dom g - set (visited s)) < n"
  shows "detect_fields n g fs s \<noteq> None"
  using assms(2)
proof (induction fs arbitrary: s)
  case Nil
  then show ?case by simp
next
  case (Cons field rest)
  show ?case
  proof (cases "fs_id field \<in> set (visited s)")
    case True
    with Cons show ?thesis by simp
  next
    case False
    from enough_fuel(1)[of g s n "fs_id field"] assms(1) Cons.prems
    obtain b1 s1 where h: "hasCycle n g (fs_id field) s = Some (b1, s1)" by auto
    from visited_mono_hasCycle[OF h] assms(1)
    have "card (dom g - set (visited s1)) \<le> card (dom g - set (visited s))"
      by (intro card_unvisited_mono) auto
    with Cons.prems have "card (dom g - set (visited s1)) < n" by simp
    from Cons.IH[OF this] h False show ?thesis by simp
  qed
qed

lemma detectCircularDependencies_total:
  "\<exists>cs. detectCircularDependencies fs = Some cs"
proof -
  let ?g = "build_dependencies fs"
  have f: "finite (dom ?g)" by (simp add: dom_build_dependencies)
  have "card (dom ?g) \<le> length fs"
    unfolding dom_build_dependencies by (metis card_image_le card_length le_trans List.finite_set)
  then have "card (dom ?g - set (visited \<lparr>visited = [], recursionStack = [], cycles = []\<rparr>))
      < Suc (length fs)" by simp
  from detect_fields_total[OF f this, of fs]
  show ?thesis by (auto simp: detectCircularDependencies_def Let_def)
qed

subsection \<open>Cycle detection without rules\<close>

lemma foldl_dependencies_range:
  "foldl (\<lambda>dependencies field. dependencies(fs_id field \<mapsto> field_deps field)) m fs v = Some ds
     \<Longrightarrow> m v = Some ds \<or> (\<exists>f\<in>set fs. ds = field_deps f)"
proof (induction fs arbitrary: m)
  case Nil
  then show ?case by simp
next
  case (Cons g rest)
  from Cons.IH[of "m(fs_id g \<mapsto> field_deps g)"] Cons.prems
  have "(m(fs_id g \<mapsto> field_deps g)) v = Some ds \<or> (\<exists>f\<in>set rest. ds = field_deps f)"
    by (simp only: foldl_Cons)
  then show ?case by (auto split: if_splits)
qed

lemma build_dependencies_range:
  "build_dependencies fs v = Some ds \<Longrightarrow> \<exists>f\<in>set fs. ds = field_deps f"
  unfolding build_dependencies_def by (drule foldl_dependencies_range) simp

lemma hasCycle_no_deps:
  assumes "\<forall>v ds. g v = Some ds \<longrightarrow> ds = []" and "recursionStack s = []"
  shows "\<exists>s'. hasCycle (Suc n) g v s = Some (False, s') \<and> recursionStack s' = []
            \<and> cycles s' = cycles s"
proof -
  have "(case g v of None \<Rightarrow> [] | Some deps \<Rightarrow> deps) = []"
    using assms(1) by (auto split: option.splits)
  then show ?thesis using assms(2) by (simp add: Let_def set_delete_set_add)
qed

lemma detect_fields_no_deps:
  assumes "\<forall>v ds. g v = Some ds \<longrightarrow> ds = []"
  shows "recursionStack s = [] \<Longrightarrow>
     \<exists>s'. detect_fields (Suc n) g fs s = Some s' \<and> cycles s' = cycles s"
proof (induction fs arbitrary: s)
  case Nil
  then show ?case by simp
next
  case (Cons field rest)
  show ?case
  proof (cases "fs_id field \<in> set (visited s)")
    case True
    with Cons show ?thesis by simp
  next
    case False
    from hasCycle_no_deps[OF assms Cons.prems, of n "fs_id field"]
    obtain s1 where h: "hasCycle (Suc n) g (fs_id field) s = Some (False, s1)"
      and r: "recursionStack s1 = []" and c: "cycles s1 = cycles s" by blast
    from Cons.IH[OF r] obtain s' where "detect_fields (Suc n) g rest s1 = Some s'"
      and "cycles s' = cycles s1" by blast
    with h c False show ?thesis by simp
  qed
qed

lemma no_rules_no_cycles:
  assumes "\<forall>f\<in>set fs. \<forall>c. fs_conditions f = Some c \<longrightarrow> cond_rules c = []"
  shows "detectCircularDependencies fs = Some []"
proof -
  have "\<forall>f\<in>set fs. field_deps f = []"
    using assms by (auto simp: field_deps_def split: option.splits)
  then have "\<forall>v ds. build_dependencies fs v = Some ds \<longrightarrow> ds = []"
    by (auto dest: build_dependencies_range)
  from detect_fields_no_deps[OF this, of "\<lparr>visited = [], recursionStack = [], cycles = []\<rparr>"
      "length fs" fs]
  show ?thesis by (auto simp: detectCircularDependencies_def Let_def)
qed


lemma stack_restored:
  "(\<forall>s'. hasCycle n g v s = Some (False, s') \<longrightarrow> recursionStack s' = recursionStack s)"
  "(\<forall>s'. hasCycle_deps n g ds s = Some (False, s') \<longrightarrow> recursionStack s' = recursionStack s)"
proof (induction n g v s and n g ds s rule: hasCycle_hasCycle_deps.induct)
  case (1 dependencies fieldId s)
  then show ?case by simp
next
  case (2 n dependencies fieldId s)
  show ?case
  proof (intro allI impI)
    fix s' assume r: "hasCycle (Suc n) dependencies fieldId s = Some (False, s')"
    show "recursionStack s' = recursionStack s"
    proof (cases "fieldId \<in> set (recursionStack s) \<or> fieldId \<in> set (visited s)")
      case True
      with r show ?thesis by (auto split: if_splits)
    next
      case False
      let ?s1 = "s\<lparr>visited := set_add (visited s) fieldId,
                   recursionStack := set_add (recursionStack s) fieldId\<rparr>"
      let ?ds = "case dependencies fieldId of None \<Rightarrow> [] | Some deps \<Rightarrow> deps"
      from False have n1: "fieldId \<notin> set (recursionStack s)"
        and n2: "fieldId \<notin> set (visited s)" by auto
      from False r obtain s2 where l: "hasCycle_deps n dependencies ?ds ?s1 = Some (False, s2)"
        and v: "s' = s2\<lparr>recursionStack := set_delete (recursionStack s2) fieldId\<rparr>"
        by (auto simp: Let_def split: option.splits bool.splits)
      from "2.IH"[OF n1 n2 refl] l have "recursionStack s2 = recursionStack ?s1" by blast
      with v n1 show ?thesis by (simp add: set_delete_set_add)
    qed
  qed
next
  case (3 n dependencies s)
  then show ?case by simp
next
  case (4 n dependencies dep deps s)
  show ?case
  proof (intro allI impI)
    fix s' assume r: "hasCycle_deps n dependencies (dep # deps) s = Some (False, s')"
    then obtain s1 where h: "hasCycle n dependencies dep s = Some (False, s1)"
      and l: "hasCycle_deps n dependencies deps s1 = Some (False, s')"
      by (auto split: option.splits bool.splits)
    from "4.IH"(1) h have "recursionStack s1 = recursionStack s" by blast
    moreover from "4.IH"(2)[OF h refl] l have "recursionStack s' = recursionStack s1" by simp
    ultimately show "recursionStack s' = recursionStack s" by simp
  qed
qed

lemma cycles_grow:
  assumes mono: "\<And>cs y. P cs \<Longrightarrow> P (cs @ [y])"
  shows "(\<forall>b s'. hasCycle n g v s = Some (b, s') \<longrightarrow> P (cycles s) \<longrightarrow> P (cycles s'))"
    and "(\<forall>b s'. hasCycle_deps n g ds s = Some (b, s') \<longrightarrow> P (cycles s) \<longrightarrow> P (cycles s'))"
proof (induction n g v s and n g ds s rule: hasCycle_hasCycle_deps.induct)
  case (1 dependencies fieldId s)
  then show ?case by simp
next
  case (2 n dependencies fieldId s)
  show ?case
  proof (intro allI impI)
    fix b s' assume r: "hasCycle (Suc n) dependencies fieldId s = Some (b, s')"
      and p: "P (cycles s)"
    show "P (cycles s')"
    proof (cases "fieldId \<in> set (recursionStack s) \<or> fieldId \<in> set (visited s)")
      case True
      with r p mono show ?thesis by (auto split: if_splits)
    next
      case False
      let ?s1 = "s\<lparr>visited := set_add (visited s) fieldId,
                   recursionStack := set_add (recursionStack s) fieldId\<rparr>"
      let ?ds = "case dependencies fieldId of None \<Rightarrow> [] | Some deps \<Rightarrow> deps"
      from False have n1: "fieldId \<notin> set (recursionStack s)"
        and n2: "fieldId \<notin> set (visited s)" by auto
      from False r obtain b2 s2 where l: "hasCycle_deps n dependencies ?ds ?s1 = Some (b2, s2)"
        and v: "cycles s' = cycles s2"
        by (auto simp: Let_def split: option.splits bool.splits)
      from "2.IH"[OF n1 n2 refl] l p have "P (cycles s2)" by simp
      with v show ?thesis by simp
    qed
  qed
next
  case (3 n dependencies s)
  then show ?case by simp
next
  case (4 n dependencies dep deps s)
  show ?case
  proof (intro allI impI)
    fix b s' assume r: "hasCycle_deps n dependencies (dep # deps) s = Some (b, s')"
      and p: "P (cycles s)"
    from r obtain b1 s1 where h: "hasCycle n dependencies dep s = Some (b1, s1)"
      by (auto split: option.splits)
    with "4.IH"(1) p have p1: "P (cycles s1)" by blast
    show "P (cycles s')"
    proof (cases b1)
      case True
      with r h p1 show ?thesis by simp
    next
      case False
      with r h have "hasCycle_deps n dependencies deps s1 = Some (b, s')" by simp
      with "4.IH"(2)[OF h refl] False p1 show ?thesis by simp
    qed
  qed
qed

lemma true_pushes:
  "(\<forall>s'. hasCycle n g v s = Some (True, s') \<longrightarrow> cycles s' \<noteq> [])"
  "(\<forall>s'. hasCycle_deps n g ds s = Some (True, s') \<longrightarrow> cycles s' \<noteq> [])"
proof (induction n g v s and n g ds s rule: hasCycle_hasCycle_deps.induct)
  case (1 dependencies fieldId s)
  then show ?case by simp
next
  case (2 n dependencies fieldId s)
  show ?case
  proof (intro allI impI)
    fix s' assume r: "hasCycle (Suc n) dependencies fieldId s = Some (True, s')"
    show "cycles s' \<noteq> []"
    proof (cases "fieldId \<in> set (recursionStack s) \<or> fieldId \<in> set (visited s)")
      case True
      with r show ?thesis by (auto split: if_splits)
    next
      case False
      let ?s1 = "s\<lparr>visited := set_add (visited s) fieldId,
                   recursionStack := set_add (recursionStack s) fieldId\<rparr>"
      let ?ds = "case dependencies fieldId of None \<Rightarrow> [] | Some deps \<Rightarrow> deps"
      from False have n1: "fieldId \<notin> set (recursionStack s)"
        and n2: "fieldId \<notin> set (visited s)" by auto
      from False r have l: "hasCycle_deps n dependencies ?ds ?s1 = Some (True, s')"
        by (auto simp: Let_def split: option.splits bool.splits)
      from "2.IH"[OF n1 n2 refl] l show ?thesis by blast
    qed
  qed
next
  case (3 n dependencies s)
  then show ?case by simp
next
  case (4 n dependencies dep deps s)
  show ?case
  proof (intro allI impI)
    fix s' assume r: "hasCycle_deps n dependencies (dep # deps) s = Some (True, s')"
    from r obtain b1 s1 where h: "hasCycle n dependencies dep s = Some (b1, s1)"
      by (auto split: option.splits)
    show "cycles s' \<noteq> []"
    proof (cases b1)
      case True
      with r h "4.IH"(1) show ?thesis by auto
    next
      case False
      with r h have "hasCycle_deps n dependencies deps s1 = Some (True, s')" by simp
      with "4.IH"(2)[OF h refl] False show ?thesis by simp
    qed
  qed
qed

subsection \<open>Cycle detection and a field that depends on itself\<close>

lemma first_visit:
  assumes "hasCycle n g v s = Some (b, s')" and "v \<notin> set (recursionStack s)"
  shows "v \<in> set (visited s')"
proof (cases n)
  case 0
  with assms show ?thesis by simp
next
  case (Suc m)
  show ?thesis
  proof (cases "v \<in> set (visited s)")
    case True
    with assms Suc show ?thesis by auto
  next
    case False
    let ?s1 = "s\<lparr>visited := set_add (visited s) v, recursionStack := set_add (recursionStack s) v\<rparr>"
    let ?ds = "case g v of None \<Rightarrow> [] | Some deps \<Rightarrow> deps"
    from False assms Suc obtain b2 s2 where l: "hasCycle_deps m g ?ds ?s1 = Some (b2, s2)"
      and v: "visited s' = visited s2"
      by (auto simp: Let_def split: option.splits bool.splits)
    from visited_mono_deps[OF l] have "v \<in> set (visited s2)" by (auto simp: set_set_add)
    with v show ?thesis by simp
  qed
qed

lemma on_stack_pushes:
  assumes "hasCycle n g v s = Some (b, s')" and "v \<in> set (recursionStack s)"
  shows "b \<and> s' = s\<lparr>cycles := cycles s @ [v]\<rparr>"
  using assms by (cases n) auto

lemma found_preserved:
  assumes mono: "\<And>cs y. P cs \<Longrightarrow> P (cs @ [y])"
  shows "(\<forall>b s'. hasCycle n g v s = Some (b, s') \<longrightarrow>
            (\<forall>n s b s'. X \<in> set (recursionStack s) \<longrightarrow>
               hasCycle_deps n g (case g X of None \<Rightarrow> [] | Some deps \<Rightarrow> deps) s = Some (b, s')
               \<longrightarrow> P (cycles s')) \<longrightarrow>
            (X \<in> set (visited s) \<longrightarrow> P (cycles s)) \<longrightarrow>
            (X \<in> set (visited s') \<longrightarrow> P (cycles s')))"
    and "(\<forall>b s'. hasCycle_deps n g ds s = Some (b, s') \<longrightarrow>
            (\<forall>n s b s'. X \<in> set (recursionStack s) \<longrightarrow>
               hasCycle_deps n g (case g X of None \<Rightarrow> [] | Some deps \<Rightarrow> deps) s = Some (b, s')
               \<longrightarrow> P (cycles s')) \<longrightarrow>
            (X \<in> set (visited s) \<longrightarrow> P (cycles s)) \<longrightarrow>
            (X \<in> set (visited s') \<longrightarrow> P (cycles s')))"
proof (induction n g v s and n g ds s rule: hasCycle_hasCycle_deps.induct)
  case (1 dependencies fieldId s)
  then show ?case by simp
next
  case (2 n dependencies fieldId s)
  show ?case
  proof (intro allI impI)
    fix b s' assume r: "hasCycle (Suc n) dependencies fieldId s = Some (b, s')"
      and K: "\<forall>n s b s'. X \<in> set (recursionStack s) \<longrightarrow>
               hasCycle_deps n dependencies
                 (case dependencies X of None \<Rightarrow> [] | Some deps \<Rightarrow> deps) s = Some (b, s')
               \<longrightarrow> P (cycles s')"
      and j: "X \<in> set (visited s) \<longrightarrow> P (cycles s)" and x: "X \<in> set (visited s')"
    show "P (cycles s')"
    proof (cases "fieldId \<in> set (recursionStack s) \<or> fieldId \<in> set (visited s)")
      case True
      with r j x mono show ?thesis by (auto split: if_splits)
    next
      case False
      let ?s1 = "s\<lparr>visited := set_add (visited s) fieldId,
                   recursionStack := set_add (recursionStack s) fieldId\<rparr>"
      let ?ds = "case dependencies fieldId of None \<Rightarrow> [] | Some deps \<Rightarrow> deps"
      from False have n1: "fieldId \<notin> set (recursionStack s)"
        and n2: "fieldId \<notin> set (visited s)" by auto
      from False r obtain b2 s2 where l: "hasCycle_deps n dependencies ?ds ?s1 = Some (b2, s2)"
        and c: "cycles s' = cycles s2" and v: "visited s' = visited s2"
        by (auto simp: Let_def split: option.splits bool.splits)
      show ?thesis
      proof (cases "fieldId = X")
        case True
        then have "X \<in> set (recursionStack ?s1)" by (simp add: set_set_add)
        with K l True have "P (cycles s2)" by blast
        with c show ?thesis by simp
      next
        case False
        with j have "X \<in> set (visited ?s1) \<longrightarrow> P (cycles ?s1)" by (simp add: set_set_add)
        with "2.IH"[OF n1 n2 refl] l K x v have "P (cycles s2)" by simp
        with c show ?thesis by simp
      qed
    qed
  qed
next
  case (3 n dependencies s)
  then show ?case by simp
next
  case (4 n dependencies dep deps s)
  show ?case
  proof (intro allI impI)
    fix b s' assume r: "hasCycle_deps n dependencies (dep # deps) s = Some (b, s')"
      and K: "\<forall>n s b s'. X \<in> set (recursionStack s) \<longrightarrow>
               hasCycle_deps n dependencies
                 (case dependencies X of None \<Rightarrow> [] | Some deps \<Rightarrow> deps) s = Some (b, s')
               \<longrightarrow> P (cycles s')"
      and j: "X \<in> set (visited s) \<longrightarrow> P (cycles s)" and x: "X \<in> set (visited s')"
    from r obtain b1 s1 where h: "hasCycle n dependencies dep s = Some (b1, s1)"
      by (auto split: option.splits)
    from "4.IH"(1) h K j have j1: "X \<in> set (visited s1) \<longrightarrow> P (cycles s1)" by blast
    show "P (cycles s')"
    proof (cases b1)
      case True
      with r h j1 x show ?thesis by simp
    next
      case False
      with r h have "hasCycle_deps n dependencies deps s1 = Some (b, s')" by simp
      with "4.IH"(2)[OF h refl] False K j1 x show ?thesis by simp
    qed
  qed
qed

lemma detect_fields_grow:
  assumes mono: "\<And>cs y. P cs \<Longrightarrow> P (cs @ [y])"
  shows "detect_fields n g fs s = Some s' \<Longrightarrow> P (cycles s) \<Longrightarrow> P (cycles s')"
proof (induction fs arbitrary: s)
  case Nil
  then show ?case by simp
next
  case (Cons field rest)
  show ?case
  proof (cases "fs_id field \<in> set (visited s)")
    case True
    with Cons show ?thesis by simp
  next
    case False
    with Cons.prems obtain b1 s1 where h: "hasCycle n g (fs_id field) s = Some (b1, s1)"
      and d: "detect_fields n g rest s1 = Some s'"
      by (auto split: option.splits)
    from cycles_grow(1)[of P n g "fs_id field" s, OF mono] h Cons.prems(2)
    have "P (cycles s1)" by blast
    from Cons.IH[OF d this] show ?thesis .
  qed
qed

lemma detect_fields_finds:
  assumes mono: "\<And>cs y. P cs \<Longrightarrow> P (cs @ [y])"
    and push: "\<And>cs. P (cs @ [X])"
    and K: "\<And>n s b s'. X \<in> set (recursionStack s) \<Longrightarrow>
        hasCycle_deps n g (case g X of None \<Rightarrow> [] | Some deps \<Rightarrow> deps) s = Some (b, s')
        \<Longrightarrow> P (cycles s')"
  shows "detect_fields n g fs s = Some s' \<Longrightarrow> X \<in> fs_id ` set fs
     \<Longrightarrow> (X \<in> set (visited s) \<longrightarrow> P (cycles s)) \<Longrightarrow> P (cycles s')"
proof (induction fs arbitrary: s)
  case Nil
  then show ?case by simp
next
  case (Cons field rest)
  show ?case
  proof (cases "fs_id field \<in> set (visited s)")
    case True
    with Cons.prems have d: "detect_fields n g rest s = Some s'" by simp
    show ?thesis
    proof (cases "fs_id field = X")
      case True
      with \<open>fs_id field \<in> set (visited s)\<close> Cons.prems(3) have "P (cycles s)" by simp
      from detect_fields_grow[of P, OF mono d this] show ?thesis .
    next
      case False
      with Cons.prems(2) have "X \<in> fs_id ` set rest" by auto
      from Cons.IH[OF d this Cons.prems(3)] show ?thesis .
    qed
  next
    case False
    with Cons.prems obtain b1 s1 where h: "hasCycle n g (fs_id field) s = Some (b1, s1)"
      and d: "detect_fields n g rest s1 = Some s'"
      by (auto split: option.splits)
    from found_preserved(1)[of P n g "fs_id field" s X, OF mono] h K Cons.prems(3)
    have j1: "X \<in> set (visited s1) \<longrightarrow> P (cycles s1)" by blast
    show ?thesis
    proof (cases "fs_id field = X")
      case True
      have "P (cycles s1)"
      proof (cases "X \<in> set (recursionStack s)")
        case True
        from on_stack_pushes[OF h] True \<open>fs_id field = X\<close> push show ?thesis by simp
      next
        case False
        from first_visit[OF h] False \<open>fs_id field = X\<close> j1 show ?thesis by simp
      qed
      from detect_fields_grow[of P, OF mono d this] show ?thesis .
    next
      case False
      with Cons.prems(2) have "X \<in> fs_id ` set rest" by auto
      from Cons.IH[OF d this j1] show ?thesis .
    qed
  qed
qed

lemma self_dependency_found:
  assumes "X \<in> set ds" and "X \<in> set (recursionStack s)"
    and "hasCycle_deps n g ds s = Some (b, s')"
  shows "cycles s' \<noteq> []"
  using assms
proof (induction ds arbitrary: s)
  case Nil
  then show ?case by simp
next
  case (Cons d rest)
  from Cons.prems(3) obtain b1 s1 where h: "hasCycle n g d s = Some (b1, s1)"
    by (auto split: option.splits)
  show ?case
  proof (cases b1)
    case True
    with h Cons.prems(3) have "s' = s1" by simp
    with true_pushes(1)[of n g d s] h True show ?thesis by auto
  next
    case False
    with h Cons.prems(3) have l: "hasCycle_deps n g rest s1 = Some (b, s')" by simp
    from stack_restored(1)[of n g d s] h False have st: "recursionStack s1 = recursionStack s"
      by auto
    have "d \<noteq> X" using on_stack_pushes[OF h] False Cons.prems(2) by auto
    with Cons.prems(1) have "X \<in> set rest" by simp
    from Cons.IH[OF this _ l] st Cons.prems(2) show ?thesis by simp
  qed
qed

lemma first_dependency_found:
  assumes "X \<in> set (recursionStack s)" and "hasCycle_deps n g (X # rest) s = Some (b, s')"
  shows "X \<in> set (cycles s')"
proof -
  from assms(2) obtain b1 s1 where h: "hasCycle n g X s = Some (b1, s1)"
    by (auto split: option.splits)
  from on_stack_pushes[OF h assms(1)] have "b1" and s1: "s1 = s\<lparr>cycles := cycles s @ [X]\<rparr>"
    by auto
  with h assms(2) have "s' = s1" by simp
  then show ?thesis unfolding s1 by simp
qed

lemma foldl_set_add_head: "\<exists>ys. foldl set_add (x # acc) xs = x # ys"
  by (induction xs arbitrary: acc) (auto simp: set_add_def)

lemma self_reference_detected:
  assumes l: "fs = pre @ f # post" and n: "fs_id f \<notin> fs_id ` set post"
    and c: "fs_conditions f = Some c"
    and r: "\<exists>rule\<in>set (cond_rules c). rule_field rule = fs_id f"
  shows "\<exists>cs. detectCircularDependencies fs = Some cs \<and> cs \<noteq> []"
proof -
  let ?g = "build_dependencies fs" and ?X = "fs_id f"
  let ?s0 = "\<lparr>visited = [], recursionStack = [], cycles = []\<rparr>"
  from build_dependencies_last[OF n, of pre] have g: "?g ?X = Some (field_deps f)"
    unfolding l .
  from l have f: "f \<in> set fs" by simp
  have x: "?X \<in> set (field_deps f)"
    using c r by (force simp: field_deps_def set_foldl_set_add)
  obtain cs where cs: "detectCircularDependencies fs = Some cs"
    using detectCircularDependencies_total by blast
  then obtain s' where det: "detect_fields (Suc (length fs)) ?g fs ?s0 = Some s'"
    and e: "cs = cycles s'"
    by (auto simp: detectCircularDependencies_def Let_def)
  have "cycles s' \<noteq> []"
  proof (rule detect_fields_finds[of "\<lambda>cs. cs \<noteq> []" ?X ?g _ fs ?s0 s', OF _ _ _ det])
    show "\<And>n s b s'. ?X \<in> set (recursionStack s) \<Longrightarrow>
        hasCycle_deps n ?g (case ?g ?X of None \<Rightarrow> [] | Some deps \<Rightarrow> deps) s = Some (b, s')
        \<Longrightarrow> cycles s' \<noteq> []"
      unfolding g using self_dependency_found[OF x] by simp
    show "?X \<in> fs_id ` set fs" using f by simp
  qed simp_all
  with cs e show ?thesis by simp
qed

lemma first_self_reference_reported:
  assumes l: "fs = pre @ f # post" and n: "fs_id f \<notin> fs_id ` set post"
    and c: "fs_conditions f = Some c"
    and r: "cond_rules c = rule # rest" and x: "rule_field rule = fs_id f"
  shows "\<exists>cs. detectCircularDependencies fs = Some cs \<and> fs_id f \<in> set cs"
proof -
  let ?g = "build_dependencies fs" and ?X = "fs_id f"
  let ?s0 = "\<lparr>visited = [], recursionStack = [], cycles = []\<rparr>"
  from build_dependencies_last[OF n, of pre] have g: "?g ?X = Some (field_deps f)"
    unfolding l .
  from l have f: "f \<in> set fs" by simp
  obtain ys where ys: "field_deps f = ?X # ys"
    using c r x foldl_set_add_head[of ?X "[]" "map rule_field rest"]
    by (auto simp: field_deps_def set_add_def)
  obtain cs where cs: "detectCircularDependencies fs = Some cs"
    using detectCircularDependencies_total by blast
  then obtain s' where det: "detect_fields (Suc (length fs)) ?g fs ?s0 = Some s'"
    and e: "cs = cycles s'"
    by (auto simp: detectCircularDependencies_def Let_def)
  have "?X \<in> set (cycles s')"
  proof (rule detect_fields_finds[of "\<lambda>cs. ?X \<in> set cs" ?X ?g _ fs ?s0 s', OF _ _ _ det])
    show "\<And>n s b s'. ?X \<in> set (recursionStack s) \<Longrightarrow>
        hasCycle_deps n ?g (case ?g ?X of None \<Rightarrow> [] | Some deps \<Rightarrow> deps) s = Some (b, s')
        \<Longrightarrow> ?X \<in> set (cycles s')"
      unfolding g ys using first_dependency_found by simp
    show "?X \<in> fs_id ` set fs" using f by simp
  qed simp_all
  with cs e show ?thesis by simp
qed

subsection \<open>Cycle detection on three fields\<close>

lemma field_deps_single:
  "fs_conditions f = Some c \<Longrightarrow> map rule_field (cond_rules c) = [x] \<Longrightarrow> field_deps f = [x]"
  by (simp add: field_deps_def set_add_def)

lemma field_deps_none:
  "\<forall>c. fs_conditions f = Some c \<longrightarrow> cond_rules c = [] \<Longrightarrow> field_deps f = []"
  by (auto simp: field_deps_def split: option.splits)

lemma three_cycle:
  assumes "a \<noteq> b" "b \<noteq> c" "a \<noteq> c"
    and "fs_id fa = a" "fs_id fb = b" "fs_id fc = c"
    and "field_deps fa = [b]" "field_deps fb = [c]" "field_deps fc = [a]"
  shows "detectCircularDependencies [fa, fb, fc] = Some [a]"
  using assms
  by (simp add: detectCircularDependencies_def build_dependencies_def Let_def set_add_def
      set_delete_def)

lemma three_chain:
  assumes "a \<noteq> b" "b \<noteq> c" "a \<noteq> c"
    and "fs_id fa = a" "fs_id fb = b" "fs_id fc = c"
    and "field_deps fa = [b]" "field_deps fb = [c]" "field_deps fc = []"
  shows "detectCircularDependencies [fa, fb, fc] = Some []"
  using assms
  by (simp add: detectCircularDependencies_def build_dependencies_def Let_def set_add_def
      set_delete_def)

lemma three_cycle_any_order:
  assumes "a \<noteq> b" "b \<noteq> c" "a \<noteq> c"
    and "fs_id fa = a" "fs_id fb = b" "fs_id fc = c"
    and "field_deps fa = [b]" "field_deps fb = [c]" "field_deps fc = [a]"
    and "gs \<in> {[fa, fb, fc], [fa, fc, fb], [fb, fa, fc], [fb, fc, fa], [fc, fa, fb], [fc, fb, fa]}"
  shows "detectCircularDependencies gs = Some [fs_id (hd gs)]"
proof -
  have 1: "detectCircularDependencies [fa, fb, fc] = Some [a]"
    using assms(1-9) by (rule three_cycle)
  have 2: "detectCircularDependencies [fb, fc, fa] = Some [b]"
    using assms(1-9) by (intro three_cycle) auto
  have 3: "detectCircularDependencies [fc, fa, fb] = Some [c]"
    using assms(1-9) by (intro three_cycle) auto
  have 4: "detectCircularDependencies [fa, fc, fb] = Some [a]"
    using assms(1-9)
    by (simp add: detectCircularDependencies_def build_dependencies_def Let_def set_add_def
        set_delete_def)
  have 5: "detectCircularDependencies [fb, fa, fc] = Some [b]"
    using assms(1-9)
    by (simp add: detectCircularDependencies_def build_dependencies_def Let_def set_add_def
        set_delete_def)
  have 6: "detectCircularDependencies [fc, fb, fa] = Some [c]"
    using assms(1-9)
    by (simp add: detectCircularDependencies_def build_dependencies_def Let_def set_add_def
        set_delete_def)
  from assms(10) 1 2 3 4 5 6 assms(4-6) show ?thesis by auto
qed

lemma three_chain_any_order:
  assumes "a \<noteq> b" "b \<noteq> c" "a \<noteq> c"
    and "fs_id fa = a" "fs_id fb = b" "fs_id fc = c"
    and "field_deps fa = [b]" "field_deps fb = [c]" "field_deps fc = []"
    and "gs \<in> {[fa, fb, fc], [fa, fc, fb], [fb, fa, fc], [fb, fc, fa], [fc, fa, fb], [fc, fb, fa]}"
  shows "detectCircularDependencies gs = Some []"
proof -
  have 1: "detectCircularDependencies [fa, fb, fc] = Some []"
    using assms(1-9) by (rule three_chain)
  have 2: "detectCircularDependencies [fb, fc, fa] = Some []"
    using assms(1-9)
    by (simp add: detectCircularDependencies_def build_dependencies_def Let_def set_add_def
        set_delete_def)
  have 3: "detectCircularDependencies [fc, fa, fb] = Some []"
    using assms(1-9)
    by (simp add: detectCircularDependencies_def build_dependencies_def Let_def set_add_def
        set_delete_def)
  have 4: "detectCircularDependencies [fa, fc, fb] = Some []"
    using assms(1-9)
    by (simp add: detectCircularDependencies_def build_dependencies_def Let_def set_add_def
        set_delete_def)
  have 5: "detectCircularDependencies [fb, fa, fc] = Some []"
    using assms(1-9)
    by (simp add: detectCircularDependencies_def build_dependencies_def Let_def set_add_def
        set_delete_def)
  have 6: "detectCircularDependencies [fc, fb, fa] = Some []"
    using assms(1-9)
    by (simp add: detectCircularDependencies_def build_dependencies_def Let_def set_add_def
        set_delete_def)
  from assms(10) 1 2 3 4 5 6 show ?thesis by auto
qed

section \<open>The order invariant and the mutations of the store\<close>

text \<open>\<^verbatim>\<open>addField\<close>, \<^verbatim>\<open>duplicateField\<close> and \<^verbatim>\<open>reorderField\<close> end with the renumbering
  \<^verbatim>\<open>.map((field, index) => ({ ...field, order: index }))\<close>, so that after them the order
  of an entry is its index; identifiers stay pairwise different when the identifier
  that \<^verbatim>\<open>uuidv4()\<close> returns is new. \<^verbatim>\<open>removeField\<close> keeps the identifiers pairwise
  different.\<close>

lemma addField_fields:
  "form_fields (currentForm (addField rt t position state)) =
     with_order (splice_insert (form_fields (currentForm state))
       (case position of None \<Rightarrow> int (length (form_fields (currentForm state))) | Some p \<Rightarrow> p)
       (createFieldSchema rt t
          (case position of None \<Rightarrow> int (length (form_fields (currentForm state))) | Some p \<Rightarrow> p)))"
  by (simp add: addField_def Let_def updateFormTimestamp_def with_fields_def)

lemma addField_invariant:
  "order_invariant (form_fields (currentForm (addField rt t position state)))
 \<and> (unique_ids (form_fields (currentForm state))
      \<and> next_uuid rt \<notin> set (map fs_id (form_fields (currentForm state)))
    \<longrightarrow> unique_ids (form_fields (currentForm (addField rt t position state))))"
  unfolding addField_fields unique_ids_def
  by (simp add: order_invariant_with_order ids_with_order distinct_splice_insert
      createFieldSchema_def Let_def)

lemma duplicateField_order_invariant:
  "order_invariant (form_fields (currentForm state))
    \<Longrightarrow> order_invariant (form_fields (currentForm (duplicateField rt fieldId state)))"
  by (auto simp: duplicateField_def Let_def updateFormTimestamp_def with_fields_def
      order_invariant_with_order split: option.splits)

lemma duplicateField_unique_ids:
  "unique_ids (form_fields (currentForm state))
    \<Longrightarrow> next_uuid rt \<notin> set (map fs_id (form_fields (currentForm state)))
    \<Longrightarrow> unique_ids (form_fields (currentForm (duplicateField rt fieldId state)))"
  by (auto simp: duplicateField_def Let_def updateFormTimestamp_def with_fields_def
      ids_with_order distinct_splice_insert cloneField_def unique_ids_def split: option.splits)

lemma reorderField_order_invariant:
  "entries_order_invariant (form_fields (currentForm (reorderField rt fromIndex toIndex state)))"
  unfolding reorderField_fields
  by (simp add: reorderFields_def Let_def case_prod_unfold entries_order_invariant_entries)

lemma removeField_unique_ids:
  "unique_ids (form_fields (currentForm state))
    \<Longrightarrow> unique_ids (form_fields (currentForm (removeField rt fieldId state)))"
  unfolding removeField_fields unique_ids_def removeFieldWithCleanup_eq
  by (simp add: comp_def distinct_map_filter)

text \<open>
  Claim C1. After each of \<^verbatim>\<open>addField\<close>, \<^verbatim>\<open>removeField\<close>, \<^verbatim>\<open>duplicateField\<close> and
  \<^verbatim>\<open>reorderField\<close> the schema satisfies \<^verbatim>\<open>fields[i].order === i\<close> for every index, and
  the identifiers are pairwise different.

  \<^verbatim>\<open>removeFieldWithCleanup\<close> filters and sweeps the rules, and does not renumber, as the
  other three mutations do. From the two fields \<open>a\<close> (order 0) and \<open>b\<close> (order 1), which
  satisfy the invariant, removing \<open>a\<close> leaves \<open>b\<close> at index 0 with order 1.
\<close>

theorem removeField_keeps_stale_order:
  "order_invariant (form_fields (currentForm
      (ex_state [ex_field ''a'' 0 None, ex_field ''b'' 1 None])))
 \<and> unique_ids (form_fields (currentForm
      (ex_state [ex_field ''a'' 0 None, ex_field ''b'' 1 None])))
 \<and> form_fields (currentForm (removeField ex_runtime ''a''
      (ex_state [ex_field ''a'' 0 None, ex_field ''b'' 1 None]))) = [ex_field ''b'' 1 None]
 \<and> \<not> order_invariant (form_fields (currentForm (removeField ex_runtime ''a''
      (ex_state [ex_field ''a'' 0 None, ex_field ''b'' 1 None]))))"
  by (simp add: removeField_def removeFieldWithCleanup_def ex_state_def ex_schema_def ex_field_def
      updateFormTimestamp_def with_fields_def Let_def order_invariant_def unique_ids_def)

section \<open>Removal and the sweep of the rules\<close>

text \<open>
  Claim C2. \<^verbatim>\<open>removeField\<close> returns the fields of \<^verbatim>\<open>removeFieldWithCleanup\<close>. In
  that list no field has the removed identifier; the rules of every field that still has
  conditions are not empty and none of them names the removed identifier; a remaining
  field all of whose rules named the removed identifier has lost its conditions; a
  remaining field with another rule keeps its conditions with exactly the other rules;
  a remaining field without conditions is unchanged; and the remaining identifiers are
  the others, in their order.
\<close>

theorem removeField_cleanup:
  "form_fields (currentForm (removeField rt fieldId state))
     = removeFieldWithCleanup (form_fields (currentForm state)) fieldId
 \<and> (\<forall>f\<in>set (removeFieldWithCleanup fieldList fieldId). fs_id f \<noteq> fieldId)
 \<and> (\<forall>f\<in>set (removeFieldWithCleanup fieldList fieldId). \<forall>c. fs_conditions f = Some c \<longrightarrow>
        cond_rules c \<noteq> [] \<and> (\<forall>rule\<in>set (cond_rules c). rule_field rule \<noteq> fieldId))
 \<and> (\<forall>f\<in>set fieldList. \<forall>c. fs_id f \<noteq> fieldId \<and> fs_conditions f = Some c
        \<and> (\<forall>rule\<in>set (cond_rules c). rule_field rule = fieldId)
        \<longrightarrow> f\<lparr>fs_conditions := None\<rparr> \<in> set (removeFieldWithCleanup fieldList fieldId))
 \<and> (\<forall>f\<in>set fieldList. \<forall>c. fs_id f \<noteq> fieldId \<and> fs_conditions f = Some c
        \<and> (\<exists>rule\<in>set (cond_rules c). rule_field rule \<noteq> fieldId)
        \<longrightarrow> f\<lparr>fs_conditions := Some (c\<lparr>cond_rules :=
                 filter (\<lambda>rule. rule_field rule \<noteq> fieldId) (cond_rules c)\<rparr>)\<rparr>
              \<in> set (removeFieldWithCleanup fieldList fieldId))
 \<and> (\<forall>f\<in>set fieldList. fs_id f \<noteq> fieldId \<and> fs_conditions f = None
        \<longrightarrow> f \<in> set (removeFieldWithCleanup fieldList fieldId))
 \<and> map fs_id (removeFieldWithCleanup fieldList fieldId)
      = filter (\<lambda>i. i \<noteq> fieldId) (map fs_id fieldList)"
proof (intro conjI)
  show "form_fields (currentForm (removeField rt fieldId state))
     = removeFieldWithCleanup (form_fields (currentForm state)) fieldId"
    by (rule removeField_fields)
  show "\<forall>f\<in>set (removeFieldWithCleanup fieldList fieldId). fs_id f \<noteq> fieldId"
    by (blast dest: removed_id_absent)
  show "\<forall>f\<in>set (removeFieldWithCleanup fieldList fieldId). \<forall>c. fs_conditions f = Some c \<longrightarrow>
        cond_rules c \<noteq> [] \<and> (\<forall>rule\<in>set (cond_rules c). rule_field rule \<noteq> fieldId)"
    by (blast dest: remaining_rules_clean)
  show "\<forall>f\<in>set fieldList. \<forall>c. fs_id f \<noteq> fieldId \<and> fs_conditions f = Some c
        \<and> (\<forall>rule\<in>set (cond_rules c). rule_field rule = fieldId)
        \<longrightarrow> f\<lparr>fs_conditions := None\<rparr> \<in> set (removeFieldWithCleanup fieldList fieldId)"
  proof (intro ballI allI impI)
    fix f c assume f: "f \<in> set fieldList"
      and h: "fs_id f \<noteq> fieldId \<and> fs_conditions f = Some c
        \<and> (\<forall>rule\<in>set (cond_rules c). rule_field rule = fieldId)"
    then have "filter (\<lambda>rule. rule_field rule \<noteq> fieldId) (cond_rules c) = []"
      by (simp add: filter_empty_conv)
    with f h show "f\<lparr>fs_conditions := None\<rparr> \<in> set (removeFieldWithCleanup fieldList fieldId)"
      unfolding in_removeFieldWithCleanup
      by (intro bexI[of _ f]) (auto simp: cleaned_conditions_def)
  qed
  show "\<forall>f\<in>set fieldList. \<forall>c. fs_id f \<noteq> fieldId \<and> fs_conditions f = Some c
        \<and> (\<exists>rule\<in>set (cond_rules c). rule_field rule \<noteq> fieldId)
        \<longrightarrow> f\<lparr>fs_conditions := Some (c\<lparr>cond_rules :=
                 filter (\<lambda>rule. rule_field rule \<noteq> fieldId) (cond_rules c)\<rparr>)\<rparr>
              \<in> set (removeFieldWithCleanup fieldList fieldId)"
  proof (intro ballI allI impI)
    fix f c assume f: "f \<in> set fieldList"
      and h: "fs_id f \<noteq> fieldId \<and> fs_conditions f = Some c
        \<and> (\<exists>rule\<in>set (cond_rules c). rule_field rule \<noteq> fieldId)"
    then have "filter (\<lambda>rule. rule_field rule \<noteq> fieldId) (cond_rules c) \<noteq> []"
      by (simp add: filter_empty_conv)
    with f h show "f\<lparr>fs_conditions := Some (c\<lparr>cond_rules :=
                 filter (\<lambda>rule. rule_field rule \<noteq> fieldId) (cond_rules c)\<rparr>)\<rparr>
              \<in> set (removeFieldWithCleanup fieldList fieldId)"
      unfolding in_removeFieldWithCleanup
      by (intro bexI[of _ f]) (auto simp: cleaned_conditions_def)
  qed
  show "\<forall>f\<in>set fieldList. fs_id f \<noteq> fieldId \<and> fs_conditions f = None
        \<longrightarrow> f \<in> set (removeFieldWithCleanup fieldList fieldId)"
  proof (intro ballI impI)
    fix f assume f: "f \<in> set fieldList" and h: "fs_id f \<noteq> fieldId \<and> fs_conditions f = None"
    then show "f \<in> set (removeFieldWithCleanup fieldList fieldId)"
      unfolding in_removeFieldWithCleanup
      by (intro bexI[of _ f]) (auto simp: cleaned_conditions_def)
  qed
  show "map fs_id (removeFieldWithCleanup fieldList fieldId)
      = filter (\<lambda>i. i \<noteq> fieldId) (map fs_id fieldList)"
    by (induction fieldList) (auto simp: removeFieldWithCleanup_eq)
qed

theorem removeField_cleanup_witness:
  "removeFieldWithCleanup
     [ex_field ''country'' 0 None, ex_field ''state'' 1 (depends_on ''country'')] ''country''
   = [ex_field ''state'' 1 None]"
proof -
  let ?fs = "[ex_field ''country'' 0 None, ex_field ''state'' 1 (depends_on ''country'')]"
  let ?c = "\<lparr>cond_show = True, cond_rules = [ex_rule ''country'' (String ''US'')],
    cond_logic = AND\<rparr>"
  have h: "ex_field ''state'' 1 (depends_on ''country'') \<in> set ?fs
    \<and> fs_id (ex_field ''state'' 1 (depends_on ''country'')) \<noteq> ''country''
    \<and> fs_conditions (ex_field ''state'' 1 (depends_on ''country'')) = Some ?c
    \<and> (\<forall>rule\<in>set (cond_rules ?c). rule_field rule = ''country'')"
    by (simp add: ex_field_def depends_on_def ex_rule_def)
  have i: "map fs_id (removeFieldWithCleanup ?fs ''country'') = [''state'']"
    using removeField_cleanup[of ex_runtime "''country''" "ex_state ?fs" ?fs]
    by (simp add: ex_field_def)
  from h removeField_cleanup[of ex_runtime "''country''" "ex_state ?fs" ?fs]
  have m: "(ex_field ''state'' 1 (depends_on ''country''))\<lparr>fs_conditions := None\<rparr>
      \<in> set (removeFieldWithCleanup ?fs ''country'')" by blast
  from i obtain f where f: "removeFieldWithCleanup ?fs ''country'' = [f]"
    by (cases "removeFieldWithCleanup ?fs ''country''") auto
  with m have "f = (ex_field ''state'' 1 (depends_on ''country''))\<lparr>fs_conditions := None\<rparr>"
    by simp
  then have "f = ex_field ''state'' 1 None" by (simp add: ex_field_def)
  with f show ?thesis by simp
qed

text \<open>
  Claim C10. A field whose conditions have an empty rule list loses its conditions when
  any other field is removed, although none of its rules named the removed field: the
  field without conditions is in the result, no field of the result keeps those
  conditions, and the visibility of the field changes from \<^verbatim>\<open>conditions.show\<close> (which
  may be false) to visible.
\<close>

theorem empty_rules_conditions_stripped:
  assumes "field \<in> set fieldList" and "fs_id field \<noteq> fieldId"
    and "fs_conditions field = Some c" and "cond_rules c = []"
  shows "field\<lparr>fs_conditions := None\<rparr> \<in> set (removeFieldWithCleanup fieldList fieldId)
    \<and> (\<forall>f\<in>set (removeFieldWithCleanup fieldList fieldId). fs_conditions f \<noteq> Some c)
    \<and> evaluateConditions field answers fieldList = cond_show c
    \<and> evaluateConditions (field\<lparr>fs_conditions := None\<rparr>) answers
         (removeFieldWithCleanup fieldList fieldId) = True"
proof (intro conjI)
  from assms show "field\<lparr>fs_conditions := None\<rparr> \<in> set (removeFieldWithCleanup fieldList fieldId)"
    unfolding in_removeFieldWithCleanup
    by (intro bexI[of _ field]) (auto simp: cleaned_conditions_def)
  from assms(4) show "\<forall>f\<in>set (removeFieldWithCleanup fieldList fieldId). fs_conditions f \<noteq> Some c"
    by (blast dest: remaining_rules_clean)
  from assms show "evaluateConditions field answers fieldList = cond_show c"
    by (simp add: evaluateConditions_def)
  show "evaluateConditions (field\<lparr>fs_conditions := None\<rparr>) answers
         (removeFieldWithCleanup fieldList fieldId) = True"
    by (simp add: evaluateConditions_def)
qed

theorem empty_rules_conditions_stripped_witness:
  "ex_field ''b'' 1 ex_hidden_by_default
     \<in> set [ex_field ''a'' 0 None, ex_field ''b'' 1 ex_hidden_by_default]
 \<and> evaluateConditions (ex_field ''b'' 1 ex_hidden_by_default) Map.empty
      [ex_field ''a'' 0 None, ex_field ''b'' 1 ex_hidden_by_default] = False
 \<and> ex_field ''b'' 1 None \<in> set (removeFieldWithCleanup
      [ex_field ''a'' 0 None, ex_field ''b'' 1 ex_hidden_by_default] ''a'')
 \<and> evaluateConditions (ex_field ''b'' 1 None) Map.empty
      (removeFieldWithCleanup [ex_field ''a'' 0 None, ex_field ''b'' 1 ex_hidden_by_default] ''a'')
    = True"
proof -
  let ?c = "\<lparr>cond_show = False, cond_rules = [], cond_logic = AND\<rparr>"
  let ?fs = "[ex_field ''a'' 0 None, ex_field ''b'' 1 ex_hidden_by_default]"
  have 1: "ex_field ''b'' 1 ex_hidden_by_default \<in> set ?fs" by simp
  have 2: "fs_id (ex_field ''b'' 1 ex_hidden_by_default) \<noteq> ''a''" by (simp add: ex_field_def)
  have 3: "fs_conditions (ex_field ''b'' 1 ex_hidden_by_default) = Some ?c"
    by (simp add: ex_field_def ex_hidden_by_default_def)
  have 4: "cond_rules ?c = []" by simp
  have 5: "(ex_field ''b'' 1 ex_hidden_by_default)\<lparr>fs_conditions := None\<rparr> = ex_field ''b'' 1 None"
    by (simp add: ex_field_def)
  from empty_rules_conditions_stripped[OF 1 2 3 4, of Map.empty] 1 show ?thesis
    unfolding 5 by simp
qed

section \<open>Visibility\<close>

text \<open>
  Claim C3. \<^verbatim>\<open>evaluateConditions\<close> returns true for a field without conditions;
  \<^verbatim>\<open>conditions.show\<close> when the rule list is empty; and otherwise, with each rule
  comparing \<^verbatim>\<open>formData[rule.field]\<close> against \<^verbatim>\<open>rule.value\<close> by \<^verbatim>\<open>rule.operator\<close>, whether
  all rules hold (logic AND) or some rule holds (logic OR).
\<close>

theorem evaluateConditions_cases:
  "(fs_conditions field = None \<longrightarrow> evaluateConditions field answers allFields = True)
 \<and> (\<forall>c. fs_conditions field = Some c \<and> cond_rules c = []
        \<longrightarrow> evaluateConditions field answers allFields = cond_show c)
 \<and> (\<forall>c. fs_conditions field = Some c \<and> cond_rules c \<noteq> [] \<longrightarrow>
        evaluateConditions field answers allFields =
          (case cond_logic c of
             AND \<Rightarrow> (\<forall>rule\<in>set (cond_rules c).
                       evaluateCondition (rule_operator rule) (lookup answers (rule_field rule))
                         (rule_value rule))
           | OR \<Rightarrow> (\<exists>rule\<in>set (cond_rules c).
                       evaluateCondition (rule_operator rule) (lookup answers (rule_field rule))
                         (rule_value rule))))"
  by (auto simp: evaluateConditions_def list_all_iff list_ex_iff Let_def
      split: LogicOperator.splits)

theorem evaluateConditions_cases_witness:
  "evaluateConditions (ex_field ''state'' 1 None) Map.empty [] = True
 \<and> evaluateConditions (ex_field ''state'' 1 ex_hidden_by_default) Map.empty [] = False
 \<and> evaluateConditions (ex_field ''state'' 1 (depends_on ''country''))
      [''country'' \<mapsto> String ''CA''] [] = False
 \<and> evaluateConditions (ex_field ''state'' 1 (depends_on ''country''))
      [''country'' \<mapsto> String ''US''] [] = True"
proof -
  let ?c = "\<lparr>cond_show = True, cond_rules = [ex_rule ''country'' (String ''US'')],
    cond_logic = AND\<rparr>"
  let ?h = "\<lparr>cond_show = False, cond_rules = [], cond_logic = AND\<rparr>"
  have n: "fs_conditions (ex_field ''state'' 1 None) = None"
    by (simp add: ex_field_def)
  have e: "fs_conditions (ex_field ''state'' 1 ex_hidden_by_default) = Some ?h
      \<and> cond_rules ?h = []"
    by (simp add: ex_field_def ex_hidden_by_default_def)
  have r: "fs_conditions (ex_field ''state'' 1 (depends_on ''country'')) = Some ?c
      \<and> cond_rules ?c \<noteq> []"
    by (simp add: ex_field_def depends_on_def)
  from n evaluateConditions_cases[of "ex_field ''state'' 1 None" Map.empty "[]"]
  have 1: "evaluateConditions (ex_field ''state'' 1 None) Map.empty [] = True" by blast
  from e evaluateConditions_cases[of "ex_field ''state'' 1 ex_hidden_by_default" Map.empty "[]"]
  have 2: "evaluateConditions (ex_field ''state'' 1 ex_hidden_by_default) Map.empty []
      = cond_show ?h"
    by blast
  from r evaluateConditions_cases[of "ex_field ''state'' 1 (depends_on ''country'')"
      "[''country'' \<mapsto> String ''CA'']" "[]"]
  have 3: "evaluateConditions (ex_field ''state'' 1 (depends_on ''country''))
      [''country'' \<mapsto> String ''CA''] [] = False"
    by (simp add: ex_rule_def lookup_def)
  from r evaluateConditions_cases[of "ex_field ''state'' 1 (depends_on ''country'')"
      "[''country'' \<mapsto> String ''US'']" "[]"]
  have 4: "evaluateConditions (ex_field ''state'' 1 (depends_on ''country''))
      [''country'' \<mapsto> String ''US''] [] = True"
    by (simp add: ex_rule_def lookup_def)
  from 1 2 3 4 show ?thesis by simp
qed

text \<open>
  Claim C6. The operator \<^verbatim>\<open>contains\<close> is the substring test when both operands are
  strings, the membership test (by SameValueZero) when the dependent value is an array,
  and false for every other combination of types; \<^verbatim>\<open>notContains\<close> is its negation, so
  true for every other combination of types.
\<close>

theorem contains_operator:
  "evaluateCondition Contains (String s) (String t) = (\<exists>pre post. s = pre @ t @ post)
 \<and> evaluateCondition Contains (Array r xs) v = (\<exists>x\<in>set xs. sameValueZero x v)
 \<and> ((\<forall>r xs. fieldValue \<noteq> Array r xs)
      \<and> \<not> ((\<exists>s. fieldValue = String s) \<and> (\<exists>t. compareValue = String t))
      \<longrightarrow> evaluateCondition Contains fieldValue compareValue = False)
 \<and> evaluateCondition NotContains fieldValue compareValue
      = (\<not> evaluateCondition Contains fieldValue compareValue)
 \<and> ((\<forall>r xs. fieldValue \<noteq> Array r xs)
      \<and> \<not> ((\<exists>s. fieldValue = String s) \<and> (\<exists>t. compareValue = String t))
      \<longrightarrow> evaluateCondition NotContains fieldValue compareValue = True)"
  by (auto simp: string_includes_iff array_includes_iff split: jsval.splits)

theorem contains_operator_witness:
  "evaluateCondition Contains (String ''hello world'') (String ''lo w'') = True
 \<and> evaluateCondition Contains (Array 1 [String ''a'', String ''b'']) (String ''b'') = True
 \<and> evaluateCondition Contains (Number (Fin 5)) (String ''5'') = False
 \<and> evaluateCondition NotContains (Number (Fin 5)) (String ''5'') = True"
proof -
  have s: "''hello world'' = ''hel'' @ ''lo w'' @ ''orld''" by simp
  have a: "\<exists>x\<in>set [String ''a'', String ''b'']. sameValueZero x (String ''b'')" by simp
  have o: "(\<forall>r xs. Number (Fin 5) \<noteq> Array r xs)
      \<and> \<not> ((\<exists>s. Number (Fin 5) = String s) \<and> (\<exists>t. String ''5'' = String t))" by simp
  from contains_operator[of "''hello world''" "''lo w''" 1 "[String ''a'', String ''b'']"
        "String ''b''" "Number (Fin 5)" "String ''5''"] s a o
  show ?thesis by blast
qed

section \<open>Validation of the form\<close>



section \<open>Cycle detection\<close>

text \<open>
  Claim C5. For every field list, \<^verbatim>\<open>detectCircularDependencies\<close> returns an empty
  result when no field has a rule, detects a rule that names its own field, returns a
  result that holds one of A, B, C for fields A, B, C whose rules form the cycle
  A, B, C, A, and returns an empty result for the chain A, B, C.

  The second part fails. When two fields have the same identifier, \<^verbatim>\<open>Map.set\<close> replaces
  the dependencies of the first by those of the second: for a field A whose rule names
  A, followed by a field A without rules, the result is empty. And with different
  identifiers, for a field F with the rules on B and on F, and a field B whose rule
  names B, the traversal returns at B: the result is B alone, and F is not reported.
\<close>

theorem self_reference_missed_counterexample:
  "detectCircularDependencies [ex_field ''A'' 0 (depends_on ''A''), ex_field ''A'' 1 None]
     = Some []
 \<and> detectCircularDependencies
      [ex_field ''F'' 0 (Some \<lparr>cond_show = True,
           cond_rules = [ex_rule ''B'' (String ''US''), ex_rule ''F'' (String ''US'')],
           cond_logic = AND\<rparr>),
       ex_field ''B'' 1 (depends_on ''B'')]
     = Some [''B'']"
  by (simp add: detectCircularDependencies_def build_dependencies_def field_deps_def Let_def
      set_add_def set_delete_def ex_field_def depends_on_def ex_rule_def)

text \<open>
  Claim C5, amended. \<^verbatim>\<open>detectCircularDependencies\<close> returns (the recursion stays within
  the bound of the model), and: it returns the empty list when no field has a rule; when
  a field has a rule that names the field itself, and no later field of the list has the
  same identifier, it returns a list that is not empty, which holds the identifier of
  that field when the rule is the first rule of the field (otherwise it may hold only
  another identifier, found before); for three fields A, B, C with different
  identifiers, in any order, where the only rule of A names B and the only rule of B
  names C, it returns the identifier of the first field of the list when the only rule
  of C names A, and the empty list when C has no rule.
\<close>

theorem detectCircularDependencies_cases:
  "(\<exists>cs. detectCircularDependencies fs = Some cs)
 \<and> ((\<forall>f\<in>set fs. \<forall>c. fs_conditions f = Some c \<longrightarrow> cond_rules c = [])
      \<longrightarrow> detectCircularDependencies fs = Some [])
 \<and> (fs = pre @ f # post \<and> fs_id f \<notin> fs_id ` set post \<and> fs_conditions f = Some c
      \<and> (\<exists>rule\<in>set (cond_rules c). rule_field rule = fs_id f)
      \<longrightarrow> (\<exists>cs. detectCircularDependencies fs = Some cs \<and> cs \<noteq> []))
 \<and> (fs = pre @ f # post \<and> fs_id f \<notin> fs_id ` set post \<and> fs_conditions f = Some c
      \<and> cond_rules c \<noteq> [] \<and> rule_field (hd (cond_rules c)) = fs_id f
      \<longrightarrow> (\<exists>cs. detectCircularDependencies fs = Some cs \<and> fs_id f \<in> set cs))
 \<and> (fs_id fa \<noteq> fs_id fb \<and> fs_id fb \<noteq> fs_id fc \<and> fs_id fa \<noteq> fs_id fc
      \<and> fs_conditions fa = Some ca \<and> map rule_field (cond_rules ca) = [fs_id fb]
      \<and> fs_conditions fb = Some cb \<and> map rule_field (cond_rules cb) = [fs_id fc]
      \<and> gs \<in> {[fa, fb, fc], [fa, fc, fb], [fb, fa, fc], [fb, fc, fa], [fc, fa, fb], [fc, fb, fa]}
      \<longrightarrow> (fs_conditions fc = Some cc \<and> map rule_field (cond_rules cc) = [fs_id fa]
            \<longrightarrow> detectCircularDependencies gs = Some [fs_id (hd gs)])
        \<and> ((\<forall>c. fs_conditions fc = Some c \<longrightarrow> cond_rules c = [])
            \<longrightarrow> detectCircularDependencies gs = Some []))"
proof (intro conjI impI)
  show "\<exists>cs. detectCircularDependencies fs = Some cs"
    by (rule detectCircularDependencies_total)
  show "detectCircularDependencies fs = Some []"
    if "\<forall>f\<in>set fs. \<forall>c. fs_conditions f = Some c \<longrightarrow> cond_rules c = []"
    using that by (rule no_rules_no_cycles)
  show "\<exists>cs. detectCircularDependencies fs = Some cs \<and> cs \<noteq> []"
    if "fs = pre @ f # post \<and> fs_id f \<notin> fs_id ` set post \<and> fs_conditions f = Some c
      \<and> (\<exists>rule\<in>set (cond_rules c). rule_field rule = fs_id f)"
    using that self_reference_detected[of fs pre f post c] by blast
  show "\<exists>cs. detectCircularDependencies fs = Some cs \<and> fs_id f \<in> set cs"
    if h: "fs = pre @ f # post \<and> fs_id f \<notin> fs_id ` set post \<and> fs_conditions f = Some c
      \<and> cond_rules c \<noteq> [] \<and> rule_field (hd (cond_rules c)) = fs_id f"
  proof -
    from h obtain rule rest where "cond_rules c = rule # rest" and "rule_field rule = fs_id f"
      by (cases "cond_rules c") auto
    with h first_self_reference_reported[of fs pre f post c rule rest] show ?thesis by blast
  qed
next
  assume h: "fs_id fa \<noteq> fs_id fb \<and> fs_id fb \<noteq> fs_id fc \<and> fs_id fa \<noteq> fs_id fc
      \<and> fs_conditions fa = Some ca \<and> map rule_field (cond_rules ca) = [fs_id fb]
      \<and> fs_conditions fb = Some cb \<and> map rule_field (cond_rules cb) = [fs_id fc]
      \<and> gs \<in> {[fa, fb, fc], [fa, fc, fb], [fb, fa, fc], [fb, fc, fa], [fc, fa, fb], [fc, fb, fa]}"
  then have da: "field_deps fa = [fs_id fb]" and db: "field_deps fb = [fs_id fc]"
    by (auto intro: field_deps_single)
  {
    assume "fs_conditions fc = Some cc \<and> map rule_field (cond_rules cc) = [fs_id fa]"
    then have "field_deps fc = [fs_id fa]" by (auto intro: field_deps_single)
    with h da db show "detectCircularDependencies gs = Some [fs_id (hd gs)]"
      by (intro three_cycle_any_order[of "fs_id fa" "fs_id fb" "fs_id fc" fa fb fc]) auto
  }
  {
    assume "\<forall>c. fs_conditions fc = Some c \<longrightarrow> cond_rules c = []"
    then have "field_deps fc = []" by (rule field_deps_none)
    with h da db show "detectCircularDependencies gs = Some []"
      by (intro three_chain_any_order[of "fs_id fa" "fs_id fb" "fs_id fc" fa fb fc]) auto
  }
qed

theorem detectCircularDependencies_cases_witness:
  "detectCircularDependencies [ex_field ''A'' 0 None, ex_field ''B'' 1 ex_hidden_by_default]
     = Some []
 \<and> (\<exists>cs. detectCircularDependencies [ex_field ''A'' 0 (depends_on ''A'')] = Some cs
       \<and> ''A'' \<in> set cs \<and> cs \<noteq> [])
 \<and> detectCircularDependencies [ex_field ''A'' 0 (depends_on ''B''),
       ex_field ''B'' 1 (depends_on ''C''), ex_field ''C'' 2 (depends_on ''A'')] = Some [''A'']
 \<and> detectCircularDependencies [ex_field ''A'' 0 (depends_on ''B''),
       ex_field ''B'' 1 (depends_on ''C''), ex_field ''C'' 2 None] = Some []"
proof -
  let ?c = "\<lambda>i. \<lparr>cond_show = True, cond_rules = [ex_rule i (String ''US'')], cond_logic = AND\<rparr>"
  let ?A = "ex_field ''A'' 0 (depends_on ''B'')" and ?B = "ex_field ''B'' 1 (depends_on ''C'')"
  let ?C = "ex_field ''C'' 2 (depends_on ''A'')" and ?D = "ex_field ''C'' 2 None"
  let ?S = "ex_field ''A'' 0 (depends_on ''A'')"
  let ?N = "[ex_field ''A'' 0 None, ex_field ''B'' 1 ex_hidden_by_default]"
  have n: "\<forall>f\<in>set ?N. \<forall>c. fs_conditions f = Some c \<longrightarrow> cond_rules c = []"
    by (simp add: ex_field_def ex_hidden_by_default_def)
  from detectCircularDependencies_cases[of ?N] n
  have 1: "detectCircularDependencies ?N = Some []" by blast
  have s: "[?S] = [] @ ?S # [] \<and> fs_id ?S \<notin> fs_id ` set [] \<and> fs_conditions ?S = Some (?c ''A'')
      \<and> cond_rules (?c ''A'') \<noteq> [] \<and> rule_field (hd (cond_rules (?c ''A''))) = fs_id ?S"
    by (simp add: ex_field_def depends_on_def ex_rule_def)
  note v = detectCircularDependencies_cases[where fs = "[?S]" and pre = "[]" and f = ?S
      and post = "[]" and c = "?c ''A''"]
  from v[THEN conjunct2, THEN conjunct2, THEN conjunct2, THEN conjunct1, THEN mp, OF s]
  obtain cs where "detectCircularDependencies [?S] = Some cs" and "fs_id ?S \<in> set cs" by blast
  then have 2: "\<exists>cs. detectCircularDependencies [?S] = Some cs \<and> ''A'' \<in> set cs \<and> cs \<noteq> []"
    by (auto simp: ex_field_def)
  have h: "fs_id ?A \<noteq> fs_id ?B \<and> fs_id ?B \<noteq> fs_id ?C \<and> fs_id ?A \<noteq> fs_id ?C
      \<and> fs_conditions ?A = Some (?c ''B'') \<and> map rule_field (cond_rules (?c ''B'')) = [fs_id ?B]
      \<and> fs_conditions ?B = Some (?c ''C'') \<and> map rule_field (cond_rules (?c ''C'')) = [fs_id ?C]
      \<and> [?A, ?B, ?C] \<in> {[?A, ?B, ?C], [?A, ?C, ?B], [?B, ?A, ?C], [?B, ?C, ?A], [?C, ?A, ?B],
          [?C, ?B, ?A]}"
    by (simp add: ex_field_def depends_on_def ex_rule_def)
  have hc: "fs_conditions ?C = Some (?c ''A'') \<and> map rule_field (cond_rules (?c ''A'')) = [fs_id ?A]"
    by (simp add: ex_field_def depends_on_def ex_rule_def)
  note t = detectCircularDependencies_cases[where fa = ?A and fb = ?B and fc = ?C and ca = "?c ''B''" and cb = "?c ''C''"
      and gs = "[?A, ?B, ?C]" and cc = "?c ''A''"]
  from t[THEN conjunct2, THEN conjunct2, THEN conjunct2, THEN conjunct2, THEN mp, OF h,
      THEN conjunct1, THEN mp, OF hc]
  have "detectCircularDependencies [?A, ?B, ?C] = Some [fs_id (hd [?A, ?B, ?C])]" .
  then have 3: "detectCircularDependencies [?A, ?B, ?C] = Some [''A'']"
    by (simp add: ex_field_def)
  have h0: "fs_id ?A \<noteq> fs_id ?B \<and> fs_id ?B \<noteq> fs_id ?D \<and> fs_id ?A \<noteq> fs_id ?D
      \<and> fs_conditions ?A = Some (?c ''B'') \<and> map rule_field (cond_rules (?c ''B'')) = [fs_id ?B]
      \<and> fs_conditions ?B = Some (?c ''C'') \<and> map rule_field (cond_rules (?c ''C'')) = [fs_id ?D]
      \<and> [?A, ?B, ?D] \<in> {[?A, ?B, ?D], [?A, ?D, ?B], [?B, ?A, ?D], [?B, ?D, ?A],
          [?D, ?A, ?B], [?D, ?B, ?A]}"
    by (simp add: ex_field_def depends_on_def ex_rule_def)
  have hn: "\<forall>c. fs_conditions ?D = Some c \<longrightarrow> cond_rules c = []"
    by (simp add: ex_field_def)
  note u = detectCircularDependencies_cases[where fa = ?A and fb = ?B and fc = ?D and ca = "?c ''B''" and cb = "?c ''C''"
      and gs = "[?A, ?B, ?D]"]
  from u[THEN conjunct2, THEN conjunct2, THEN conjunct2, THEN conjunct2, THEN mp, OF h0,
      THEN conjunct2, THEN mp, OF hn]
  have 4: "detectCircularDependencies [?A, ?B, ?D] = Some []" .
  from 1 2 3 4 show ?thesis by simp
qed

section \<open>Reordering with indices out of range\<close>

text \<open>
  Claim C7. \<^verbatim>\<open>reorderField\<close> with an index out of range fails with an error of the kind
  IndexError and returns no corrupted schema.

  The code has no check and no error: on two fields, \<^verbatim>\<open>reorderField(5, 0)\<close> returns
  three entries, the first of which is \<^verbatim>\<open>{ order: 0 }\<close>, without identifier.
\<close>

theorem reorderField_out_of_range_counterexample:
  "\<not> 5 < int (length (form_fields (currentForm
        (ex_state [ex_field ''a'' 0 None, ex_field ''b'' 1 None]))))
 \<and> form_fields (currentForm (reorderField ex_runtime 5 0
      (ex_state [ex_field ''a'' 0 None, ex_field ''b'' 1 None])))
    = [OrderOnly 0, Field (ex_field ''a'' 1 None), Field (ex_field ''b'' 2 None)]"
  by (simp add: reorderField_def reorderFields_def ex_state_def ex_schema_def ex_field_def
      updateFormTimestamp_def with_fields_def Let_def splice_delete1_def splice_insert_def
      splice_start_def entries_with_order_def enumerate_eq_zip upt_rec)

text \<open>
  Claim C7, amended. \<^verbatim>\<open>reorderField\<close> never fails and follows \<^verbatim>\<open>splice\<close>: the order of
  every entry of the result is its index. When \<^verbatim>\<open>fromIndex\<close> is at least the number of
  fields (or there is no field), nothing is removed and an entry \<^verbatim>\<open>{ order }\<close> without
  identifier is inserted at the position that \<^verbatim>\<open>splice\<close> derives from \<^verbatim>\<open>toIndex\<close>: the
  result has one entry more. For every other \<^verbatim>\<open>fromIndex\<close> (a negative one counts from
  the end) and every \<^verbatim>\<open>toIndex\<close>, the result holds the fields of the input, each once,
  in some order, renumbered.
\<close>

theorem reorderField_splice_semantics:
  "entries_order_invariant (form_fields (currentForm (reorderField rt fromIndex toIndex state)))
 \<and> (int (length (form_fields (currentForm state))) \<le> fromIndex
      \<or> form_fields (currentForm state) = [] \<longrightarrow>
      form_fields (currentForm (reorderField rt fromIndex toIndex state))
        = entries_with_order
            (splice_insert (map Some (form_fields (currentForm state))) toIndex None)
    \<and> length (form_fields (currentForm (reorderField rt fromIndex toIndex state)))
        = length (form_fields (currentForm state)) + 1
    \<and> form_fields (currentForm (reorderField rt fromIndex toIndex state))
         ! splice_start (length (form_fields (currentForm state))) toIndex
        = OrderOnly (int (splice_start (length (form_fields (currentForm state))) toIndex)))
 \<and> (fromIndex < int (length (form_fields (currentForm state)))
      \<and> form_fields (currentForm state) \<noteq> [] \<longrightarrow>
      (\<exists>ys. mset ys = mset (form_fields (currentForm state))
         \<and> form_fields (currentForm (reorderField rt fromIndex toIndex state))
             = map Field (with_order ys)))"
proof -
  let ?fs = "form_fields (currentForm state)"
  have inv: "entries_order_invariant (reorderFields ?fs fromIndex toIndex)"
    by (simp add: reorderFields_def Let_def case_prod_unfold entries_order_invariant_entries)
  have out: "reorderFields ?fs fromIndex toIndex
        = entries_with_order (splice_insert (map Some ?fs) toIndex None)
    \<and> length (reorderFields ?fs fromIndex toIndex) = length ?fs + 1
    \<and> reorderFields ?fs fromIndex toIndex ! splice_start (length ?fs) toIndex
        = OrderOnly (int (splice_start (length ?fs) toIndex))"
    if "int (length ?fs) \<le> fromIndex \<or> ?fs = []"
  proof -
    from that have "\<not> splice_start (length ?fs) fromIndex < length ?fs"
      unfolding splice_start_cases by auto
    with splice_start_le[of "length ?fs" fromIndex]
    have "splice_start (length ?fs) fromIndex = length ?fs" by simp
    then have e: "reorderFields ?fs fromIndex toIndex
        = entries_with_order (splice_insert (map Some ?fs) toIndex None)"
      by (rule reorderFields_nothing_removed)
    have k: "splice_start (length ?fs) toIndex
        < length (splice_insert (map Some ?fs) toIndex None)"
      using splice_start_le[of "length ?fs" toIndex] by (simp add: length_splice_insert)
    have n: "splice_insert (map Some ?fs) toIndex None ! splice_start (length ?fs) toIndex = None"
      using nth_splice_insert[of "map Some ?fs" toIndex None] by simp
    show ?thesis
      unfolding e using nth_entries_with_order[OF k] n
      by (simp add: length_entries_with_order length_splice_insert)
  qed
  have perm: "\<exists>ys. mset ys = mset ?fs
      \<and> reorderFields ?fs fromIndex toIndex = map Field (with_order ys)"
    if "fromIndex < int (length ?fs) \<and> ?fs \<noteq> []"
  proof -
    let ?a = "splice_start (length ?fs) fromIndex"
    from that have a: "?a < length ?fs" unfolding splice_start_cases by simp
    let ?ys = "splice_insert (take ?a ?fs @ drop (?a + 1) ?fs) toIndex (?fs ! ?a)"
    have "mset ?ys = add_mset (?fs ! ?a) (mset (take ?a ?fs) + mset (drop (Suc ?a) ?fs))"
      by (simp add: mset_splice_insert)
    also have "\<dots> = mset (take ?a ?fs @ ?fs ! ?a # drop (Suc ?a) ?fs)" by simp
    also have "\<dots> = mset ?fs" using a by (simp only: id_take_nth_drop[symmetric])
    finally have "mset ?ys = mset ?fs" .
    moreover have "reorderFields ?fs fromIndex toIndex = map Field (with_order ?ys)"
      using a by (rule reorderFields_removed)
    ultimately show ?thesis by blast
  qed
  show ?thesis unfolding reorderField_fields using inv out perm by blast
qed

theorem reorderField_splice_semantics_witness:
  "int (length (form_fields (currentForm
      (ex_state [ex_field ''a'' 0 None, ex_field ''b'' 1 None])))) \<le> 5
 \<and> length (form_fields (currentForm (reorderField ex_runtime 5 0
      (ex_state [ex_field ''a'' 0 None, ex_field ''b'' 1 None])))) = 3
 \<and> form_fields (currentForm (reorderField ex_runtime 5 0
      (ex_state [ex_field ''a'' 0 None, ex_field ''b'' 1 None]))) ! 0 = OrderOnly 0
 \<and> (0::int) < int (length (form_fields (currentForm
      (ex_state [ex_field ''a'' 0 None, ex_field ''b'' 1 None]))))
 \<and> (\<exists>ys. mset ys = mset [ex_field ''a'' 0 None, ex_field ''b'' 1 None]
      \<and> form_fields (currentForm (reorderField ex_runtime 0 1
      (ex_state [ex_field ''a'' 0 None, ex_field ''b'' 1 None]))) = map Field (with_order ys))"
proof -
  let ?st = "ex_state [ex_field ''a'' 0 None, ex_field ''b'' 1 None]"
  have f: "form_fields (currentForm ?st) = [ex_field ''a'' 0 None, ex_field ''b'' 1 None]"
    by (simp add: ex_state_def ex_schema_def)
  have h1: "int (length (form_fields (currentForm ?st))) \<le> 5" by (simp add: f)
  have h2: "0 < int (length (form_fields (currentForm ?st))) \<and> form_fields (currentForm ?st) \<noteq> []"
    by (simp add: f)
  have s: "splice_start (length (form_fields (currentForm ?st))) 0 = 0"
    by (simp add: splice_start_def)
  from reorderField_splice_semantics[of ex_runtime 5 0 ?st] h1
  have "length (form_fields (currentForm (reorderField ex_runtime 5 0 ?st)))
      = length (form_fields (currentForm ?st)) + 1
    \<and> form_fields (currentForm (reorderField ex_runtime 5 0 ?st))
         ! splice_start (length (form_fields (currentForm ?st))) 0
      = OrderOnly (int (splice_start (length (form_fields (currentForm ?st))) 0))"
    by blast
  then have a: "length (form_fields (currentForm (reorderField ex_runtime 5 0 ?st))) = 3
    \<and> form_fields (currentForm (reorderField ex_runtime 5 0 ?st)) ! 0 = OrderOnly 0"
    unfolding s by (simp add: f)
  from reorderField_splice_semantics[of ex_runtime 0 1 ?st] h2
  have b: "\<exists>ys. mset ys = mset (form_fields (currentForm ?st))
      \<and> form_fields (currentForm (reorderField ex_runtime 0 1 ?st)) = map Field (with_order ys)"
    by blast
  from a b h1 h2 show ?thesis unfolding f by simp
qed

section \<open>Updating a field that is absent\<close>

text \<open>
  Claim C8. \<^verbatim>\<open>updateField\<close> with an identifier that no field has returns the schema
  unchanged, \<^verbatim>\<open>metadata.updatedAt\<close> included.

  The store stamps \<^verbatim>\<open>updatedAt\<close> in every case: on a form without fields, saved at
  \<open>2024-01-01\<close>, an update at \<open>2024-06-01\<close> returns a different state.
\<close>

theorem updateField_absent_counterexample:
  "''missing'' \<notin> set (map fs_id (form_fields (currentForm (ex_state []))))
 \<and> updateField ex_runtime ''missing'' ex_update (ex_state []) \<noteq> ex_state []
 \<and> updatedAt (metadata (currentForm (ex_state []))) = ''2024-01-01T00:00:00.000Z''
 \<and> updatedAt (metadata (currentForm (updateField ex_runtime ''missing'' ex_update (ex_state []))))
     = ''2024-06-01T12:00:00.000Z''"
  by (simp add: updateField_def ex_state_def ex_schema_def ex_runtime_def updateFormTimestamp_def
      with_fields_def Let_def)

text \<open>
  Claim C8, amended. \<^verbatim>\<open>updateField\<close> with an identifier that no field has changes
  nothing but \<^verbatim>\<open>metadata.updatedAt\<close>, which becomes the current time: the fields, the
  rest of the schema and the rest of the state are those of the input.
\<close>

theorem updateField_absent_stamps_only:
  assumes "fieldId \<notin> set (map fs_id (form_fields (currentForm state)))"
  shows "updateField rt fieldId updates state
           = state\<lparr>currentForm := (currentForm state)\<lparr>metadata :=
                (metadata (currentForm state))\<lparr>updatedAt := clock_now rt\<rparr>\<rparr>\<rparr>"
proof -
  have "map (\<lambda>field. if fs_id field = fieldId then merge_updates field updates else field)
          (form_fields (currentForm state)) = form_fields (currentForm state)"
    using assms by (intro map_idI) auto
  then show ?thesis
    by (simp add: updateField_def Let_def with_fields_same updateFormTimestamp_def)
qed

theorem updateField_absent_stamps_only_witness:
  "''missing'' \<notin> set (map fs_id (form_fields (currentForm (ex_state [ex_field ''a'' 0 None]))))
 \<and> form_fields (currentForm (updateField ex_runtime ''missing'' ex_update
      (ex_state [ex_field ''a'' 0 None])))
    = [ex_field ''a'' 0 None]
 \<and> updatedAt (metadata (currentForm (updateField ex_runtime ''missing'' ex_update
      (ex_state [ex_field ''a'' 0 None]))))
    = ''2024-06-01T12:00:00.000Z''"
proof -
  have h: "''missing''
      \<notin> set (map fs_id (form_fields (currentForm (ex_state [ex_field ''a'' 0 None]))))"
    by (simp add: ex_state_def ex_schema_def ex_field_def)
  show ?thesis
    using h updateField_absent_stamps_only[OF h, of ex_runtime "ex_update"]
    by (simp add: ex_state_def ex_schema_def ex_runtime_def)
qed

section \<open>Migration\<close>

text \<open>
  Claim C9. \<^verbatim>\<open>migrateSchema\<close> is idempotent, and the migrated schema is the input with
  the version set to the current version tag \<open>1.0.0\<close>: identifier, metadata, fields and
  settings are those of the input.
\<close>

theorem migrateSchema_idempotent:
  "migrateSchema (migrateSchema s) = migrateSchema s
 \<and> migrateSchema s = s\<lparr>version := ''1.0.0''\<rparr>
 \<and> version (migrateSchema s) = SCHEMA_VERSION
 \<and> form_id (migrateSchema s) = form_id s
 \<and> metadata (migrateSchema s) = metadata s
 \<and> form_fields (migrateSchema s) = form_fields s
 \<and> settings (migrateSchema s) = settings s"
  by (simp add: migrateSchema_def SCHEMA_VERSION_def)

end
